theory Spec2Isabelle
  imports Main
begin

section \<open>The data model of \<open>mwcp/resources/dispatcher.py\<close>\<close>

text \<open>
  Python objects are shared and mutated in place, and a \<open>FileObject\<close> refers to its parent,
  so file objects live in a store and are named by their address. A class object (a parser
  class) is named by its \<open>__name__\<close>.
\<close>

type_synonym addr = nat
type_synonym bytes = string
type_synonym cls = string

text \<open>
  The exceptions that derive from \<open>Exception\<close>: \<open>UnableToParse\<close> of this module, the ones the
  module raises itself (\<open>NotImplementedError\<close>, the \<open>AssertionError\<close> of an \<open>assert\<close>, the
  \<open>IndexError\<close> of \<open>pop\<close> on an empty deque), and any other one, with its message.
\<close>

datatype exn =
    UnableToParse
  | NotImplementedError
  | AssertionError
  | IndexError
  | OtherException string

text \<open>The attributes of \<open>FileObject\<close> that the dispatcher reads or writes.\<close>

record file_object =
  output_file :: bool
  outputted_file :: bool
  parent :: "addr option"
  parser :: "cls option"
  file_data :: bytes
  file_name :: string
  description :: "string option"

text \<open>Python's truth value of an optional string: \<open>None\<close> and \<open>''\<close> are false.\<close>

definition truthy :: "string option \<Rightarrow> bool" where
  "truthy d = (case d of None \<Rightarrow> False | Some x \<Rightarrow> x \<noteq> [])"

subsection \<open>The reporter\<close>

datatype debug_msg =
    MsgStarted
  | MsgResidual string string
  | MsgIdentified string "string option"
  | MsgNotIdentified string
  | MsgMissIdentified string "string option"
  | MsgParserFailed cls

text \<open>
  Modelled from the spec: the reporter (\<open>mwcp.Reporter\<close>), the output sink and debug sink of
  the dispatcher. It keeps the names it has been given (\<open>outputfiles\<close>, what the spec calls
  \<open>containsName\<close>); \<open>output_calls\<close> and \<open>debug_log\<close> record the calls it receives.
\<close>

record reporter =
  outputfiles :: "string list"
  output_calls :: "(bytes \<times> string \<times> string) list"
  debug_log :: "debug_msg list"

definition reporter_output_file :: "bytes \<Rightarrow> string \<Rightarrow> string \<Rightarrow> reporter \<Rightarrow> reporter" where
  "reporter_output_file d n desc r =
     r\<lparr>outputfiles := outputfiles r @ [n], output_calls := output_calls r @ [(d, n, desc)]\<rparr>"

definition reporter_debug :: "debug_msg \<Rightarrow> reporter \<Rightarrow> reporter" where
  "reporter_debug m r = r\<lparr>debug_log := debug_log r @ [m]\<rparr>"

subsection \<open>The state of a run\<close>

text \<open>
  \<open>trace\<close> is instrumentation: it records, in order, the calls the claims speak about
  (enqueue, dequeue, an \<open>identify\<close> call and its answer, the call of a parser's \<open>run\<close>, the end
  of the \<open>try\<close> block with what it raised, the call of \<open>output\<close>). The functions of the
  dispatcher append to it and never read it.
\<close>

datatype event =
    Enqueued addr
  | Dequeued addr
  | Identify addr cls bool
  | RunCalled addr cls
  | Executed addr cls "exn option"
  | OutputCalled addr

text \<open>
  The mutable attributes of \<open>Dispatcher\<close> (\<open>_fifo_buffer\<close>, \<open>_current_file_object\<close>,
  \<open>_current_parser_class\<close>, \<open>knowledge_base\<close>), the store of file objects with its next free
  address, and the reporter. The deque \<open>_fifo_buffer\<close> is a list whose head is the left end.
\<close>

record state =
  fifo_buffer :: "addr list"
  current_file_object :: "addr option"
  current_parser_class :: "cls option"
  knowledge_base :: "string \<rightharpoonup> string"
  objs :: "addr \<Rightarrow> file_object"
  next_addr :: addr
  reporter :: reporter
  trace :: "event list"

definition debug :: "debug_msg \<Rightarrow> state \<Rightarrow> state" where
  "debug m s = s\<lparr>reporter := reporter_debug m (reporter s)\<rparr>"

definition log_event :: "event \<Rightarrow> state \<Rightarrow> state" where
  "log_event e s = s\<lparr>trace := trace s @ [e]\<rparr>"

subsection \<open>Parser classes\<close>

text \<open>
  \<open>ComponentParser.run\<close> is \<open>pass\<close>, and subclasses overwrite it: what a \<open>run\<close> does is a parameter
  of the dispatcher. It is given by the calls it makes on the dispatcher and on its file
  object, in order. \<open>AddToQueue\<close> is \<open>dispatcher.add_to_queue(FileObject(...))\<close> with the
  constructor's arguments (data, whether there is a PE object, the supplied file name, the
  file name \<open>pefileutils\<close> derives, description, \<open>output_file\<close>, \<open>use_supplied_fname\<close>); the others
  assign to the parser's own file object, store into the knowledge base, and call
  \<open>self.file_object.output()\<close>.
\<close>

datatype action =
    AddToQueue bytes bool "string option" string "string option" bool bool
  | SetFileName string
  | SetDescription "string option"
  | KbStore string string
  | CallOutput

text \<open>
  A subclass of \<open>ComponentParser\<close>: its name, its \<open>DESCRIPTION\<close>, its \<open>identify\<close> class method
  (which may change the file object it is given, and may raise) and its \<open>run\<close> method, which
  sees the state and answers with the calls it makes and with what it raises at the end,
  if anything.
\<close>

record parser_class =
  cls_name :: cls
  DESCRIPTION :: "string option"
  identify :: "file_object \<Rightarrow> exn + bool \<times> file_object"
  run :: "addr \<Rightarrow> state \<Rightarrow> action list \<times> exn option"

text \<open>The base class: no \<open>DESCRIPTION\<close>, \<open>identify\<close> raises, \<open>run\<close> is \<open>pass\<close>.\<close>

definition ComponentParser :: parser_class where
  "ComponentParser =
     \<lparr>cls_name = ''ComponentParser'', DESCRIPTION = None,
      identify = (\<lambda>fo. Inl NotImplementedError), run = (\<lambda>a s. ([], None))\<rparr>"

definition UnidentifiedFile :: parser_class where
  "UnidentifiedFile =
     \<lparr>cls_name = ''UnidentifiedFile'', DESCRIPTION = Some ''Unidentified file'',
      identify = (\<lambda>fo. Inr (True, fo)), run = (\<lambda>a s. ([], None))\<rparr>"

text \<open>The attributes of \<open>Dispatcher\<close> that a run does not change.\<close>

record config =
  parsers :: "parser_class list"
  greedy :: bool
  default' :: "parser_class option"

section \<open>\<open>FileObject\<close>\<close>

text \<open>
  \<open>FileObject.__init__\<close>. The module \<open>pefileutils\<close> is not part of the source at hand: \<open>pe\<close> says
  whether \<open>pe or pefileutils.obtain_pe(file_data)\<close> is a PE object, and \<open>original_filename\<close> is
  what \<open>pefileutils.obtain_original_filename\<close> answers.
\<close>

definition FileObject_init ::
  "bytes \<Rightarrow> bool \<Rightarrow> string option \<Rightarrow> string \<Rightarrow> string option \<Rightarrow> bool \<Rightarrow> bool \<Rightarrow> exn + file_object" where
  "FileObject_init data pe fname original_filename descr out use_supplied_fname =
     (let use_supplied = (use_supplied_fname \<or> \<not> pe);
          name = (case fname of
                    None \<Rightarrow> original_filename
                  | Some n \<Rightarrow> if n \<noteq> [] \<and> use_supplied then n else original_filename)
      in if name = [] then Inl AssertionError
         else Inr \<lparr>output_file = out, outputted_file = False, parent = None, parser = None,
                   file_data = data, file_name = name, description = descr\<rparr>)"

text \<open>
  The property \<open>parser_history\<close>: the loop over the \<open>parent\<close> links. A chain of parents that
  comes back to itself makes the loop run forever; then the result is \<open>None\<close>.
\<close>

partial_function (option) history_loop ::
  "(addr \<Rightarrow> file_object) \<Rightarrow> cls option list \<Rightarrow> addr option \<Rightarrow> cls option list option" where
  "history_loop h history par =
     (case par of
        None \<Rightarrow> Some history
      | Some p \<Rightarrow> history_loop h (history @ [parser (h p)]) (parent (h p)))"

declare history_loop.simps [code]

definition parser_history :: "(addr \<Rightarrow> file_object) \<Rightarrow> addr \<Rightarrow> cls option list option" where
  "parser_history h a = map_option rev (history_loop h [parser (h a)] (parent (h a)))"

text \<open>\<open>FileObject.output\<close>, on the file object and the reporter it holds.\<close>

definition FileObject_output :: "file_object \<Rightarrow> reporter \<Rightarrow> file_object \<times> reporter" where
  "FileObject_output fo r =
     (if output_file fo \<and> \<not> outputted_file fo then
        if file_name fo \<notin> set (outputfiles r) then
          (fo\<lparr>outputted_file := True\<rparr>,
           reporter_output_file (file_data fo) (file_name fo)
             (case description fo of None \<Rightarrow> [] | Some d \<Rightarrow> d) r)
        else (fo, r)
      else (fo, r))"

text \<open>The same call on the object at address \<open>a\<close> of the store.\<close>

definition call_output :: "addr \<Rightarrow> state \<Rightarrow> state" where
  "call_output a s =
     (let (fo, r) = FileObject_output (objs s a) (reporter s)
      in log_event (OutputCalled a) (s\<lparr>objs := (objs s)(a := fo), reporter := r\<rparr>))"

section \<open>\<open>Dispatcher\<close>\<close>

definition Dispatcher_init ::
  "reporter \<Rightarrow> parser_class list option \<Rightarrow> bool \<Rightarrow> parser_class option \<Rightarrow> config \<times> state" where
  "Dispatcher_init r ps g d =
     (\<lparr>parsers = (case ps of None \<Rightarrow> [] | Some l \<Rightarrow> l), greedy = g, default' = d\<rparr>,
      \<lparr>fifo_buffer = [], current_file_object = None, current_parser_class = None,
       knowledge_base = Map.empty, objs = (\<lambda>_. \<lparr>output_file = False, outputted_file = False,
         parent = None, parser = None, file_data = [], file_name = [], description = None\<rparr>),
       next_addr = 0, reporter = r, trace = []\<rparr>)"

text \<open>\<open>FileObject(...)\<close> puts a new object into the store.\<close>

definition new_object :: "file_object \<Rightarrow> state \<Rightarrow> addr \<times> state" where
  "new_object fo s =
     (next_addr s, s\<lparr>objs := (objs s)(next_addr s := fo), next_addr := Suc (next_addr s)\<rparr>)"

text \<open>\<open>Dispatcher.add_to_queue\<close>: \<open>appendleft\<close> is \<open>#\<close>.\<close>

definition add_to_queue :: "addr \<Rightarrow> state \<Rightarrow> state" where
  "add_to_queue a s =
     (let s1 = log_event (Enqueued a)
                 (s\<lparr>objs := (objs s)(a := (objs s a)\<lparr>parent := current_file_object s\<rparr>),
                    fifo_buffer := a # fifo_buffer s\<rparr>)
      in case current_file_object s of
           None \<Rightarrow> s1
         | Some c \<Rightarrow> debug (MsgResidual (file_name (objs s1 c)) (file_name (objs s1 a))) s1)"

text \<open>One call made by a parser's \<open>run\<close> on the file object at \<open>a\<close>.\<close>

fun do_action :: "addr \<Rightarrow> action \<Rightarrow> state \<Rightarrow> exn + state" where
  "do_action a (AddToQueue data pe fname orig descr out use_supplied) s =
     (case FileObject_init data pe fname orig descr out use_supplied of
        Inl e \<Rightarrow> Inl e
      | Inr fo \<Rightarrow> (let (b, s1) = new_object fo s in Inr (add_to_queue b s1)))"
| "do_action a (SetFileName n) s = Inr (s\<lparr>objs := (objs s)(a := (objs s a)\<lparr>file_name := n\<rparr>)\<rparr>)"
| "do_action a (SetDescription d) s = Inr (s\<lparr>objs := (objs s)(a := (objs s a)\<lparr>description := d\<rparr>)\<rparr>)"
| "do_action a (KbStore k v) s = Inr (s\<lparr>knowledge_base := (knowledge_base s)(k \<mapsto> v)\<rparr>)"
| "do_action a CallOutput s = Inr (call_output a s)"

text \<open>The calls of a \<open>run\<close> in order; an exception raised by one of them ends the \<open>run\<close>.\<close>

fun run_actions :: "addr \<Rightarrow> action list \<Rightarrow> exn option \<Rightarrow> state \<Rightarrow> exn option \<times> state" where
  "run_actions a [] r s = (r, s)"
| "run_actions a (x # xs) r s =
     (case do_action a x s of
        Inl e \<Rightarrow> (Some e, s)
      | Inr s' \<Rightarrow> run_actions a xs r s')"

text \<open>
  The generator \<open>Dispatcher._identify_file\<close>. \<open>Gen ps identified\<close> is the generator about to
  try the parsers \<open>ps\<close>; \<open>Exhausted\<close> is the generator after it has yielded the default or has
  returned. \<open>identify_next\<close> resumes it: it answers the parser class it yields (\<open>None\<close> when
  it returns), the generator to resume later, and the state. An exception of \<open>identify\<close>
  leaves the generator with the state before the call.
\<close>

datatype gen = Gen "parser_class list" bool | Exhausted

fun gen_size :: "gen \<Rightarrow> nat" where
  "gen_size Exhausted = 0"
| "gen_size (Gen ps identified) = Suc (length ps)"

function identify_next ::
  "config \<Rightarrow> addr \<Rightarrow> gen \<Rightarrow> state \<Rightarrow> exn \<times> state + parser_class option \<times> gen \<times> state" where
  "identify_next cfg a Exhausted s = Inr (None, Exhausted, s)"
| "identify_next cfg a (Gen [] identified) s =
     (if \<not> identified then
        (let s1 = (if \<not> truthy (description (objs s a))
                   then debug (MsgNotIdentified (file_name (objs s a))) s else s)
         in case default' cfg of
              Some d \<Rightarrow> Inr (Some d, Exhausted, s1)
            | None \<Rightarrow> Inr (None, Exhausted, s1))
      else Inr (None, Exhausted, s))"
| "identify_next cfg a (Gen (p # ps) identified) s =
     (case identify p (objs s a) of
        Inl e \<Rightarrow> Inl (e, s)
      | Inr (b, fo) \<Rightarrow>
          (let s1 = log_event (Identify a (cls_name p) b) (s\<lparr>objs := (objs s)(a := fo)\<rparr>)
           in if b then Inr (Some p, Gen ps True, debug (MsgIdentified (file_name fo) (DESCRIPTION p)) s1)
              else identify_next cfg a (Gen ps identified) s1))"
  by pat_completeness auto
termination
  by (relation "measure (\<lambda>(cfg, a, g, s). gen_size g)") auto

lemma identify_next_smaller:
  "identify_next cfg a g s = Inr (Some q, g', s') \<Longrightarrow> gen_size g' < gen_size g"
proof (induction cfg a g s rule: identify_next.induct)
  case (1 cfg a s)
  then show ?case by simp
next
  case (2 cfg a identified s)
  then show ?case by (auto simp: Let_def split: if_splits option.splits)
next
  case (3 cfg a p ps identified s)
  show ?case
  proof (cases "identify p (objs s a)")
    case (Inl e)
    with 3 show ?thesis by simp
  next
    case (Inr r)
    obtain b fo where r: "r = (b, fo)" by (cases r)
    show ?thesis
    proof (cases b)
      case True
      with 3(2) Inr r show ?thesis by (auto simp: Let_def)
    next
      case False
      with 3(2) Inr r have "identify_next cfg a (Gen ps identified)
          (log_event (Identify a (cls_name p) b) (s\<lparr>objs := (objs s)(a := fo)\<rparr>)) = Inr (Some q, g', s')"
        by (simp add: Let_def)
      from 3(1) [OF Inr r [symmetric] refl False this] show ?thesis by simp
    qed
  qed
qed

text \<open>
  \<open>list(self._identify_file(file_object))\<close>: the whole sequence the generator yields when
  nothing else runs between two of its steps.
\<close>

function identify_file :: "config \<Rightarrow> addr \<Rightarrow> gen \<Rightarrow> state \<Rightarrow> exn \<times> state + parser_class list \<times> state" where
  "identify_file cfg a g s =
     (case identify_next cfg a g s of
        Inl e \<Rightarrow> Inl e
      | Inr (None, g', s1) \<Rightarrow> Inr ([], s1)
      | Inr (Some p, g', s1) \<Rightarrow>
          (case identify_file cfg a g' s1 of
             Inl e \<Rightarrow> Inl e
           | Inr (ps, s2) \<Rightarrow> Inr (p # ps, s2)))"
  by pat_completeness auto
termination
  by (relation "measure (\<lambda>(cfg, a, g, s). gen_size g)") (auto dest: identify_next_smaller)

text \<open>
  The body of the \<open>for\<close> loop of \<open>dispatch\<close> up to the \<open>try\<close>: the file object and the parser
  class become the current ones, a file object with no description takes the parser's, and
  the parser class is written into the file object.
\<close>

definition prepare :: "addr \<Rightarrow> parser_class \<Rightarrow> state \<Rightarrow> state" where
  "prepare a p s =
     (let s1 = s\<lparr>current_file_object := Some a, current_parser_class := Some (cls_name p)\<rparr>;
          fo = objs s1 a;
          fo1 = (if \<not> truthy (description fo) then fo\<lparr>description := DESCRIPTION p\<rparr> else fo);
          fo2 = fo1\<lparr>parser := Some (cls_name p)\<rparr>
      in s1\<lparr>objs := (objs s1)(a := fo2)\<rparr>)"

text \<open>
  The \<open>try\<close> block: \<open>ComponentParser.__init__\<close> raises when the class has no \<open>DESCRIPTION\<close>;
  otherwise \<open>run\<close> is called. The result is what the block raised, if anything.
\<close>

definition execute :: "parser_class \<Rightarrow> addr \<Rightarrow> state \<Rightarrow> exn option \<times> state" where
  "execute p a s =
     (if \<not> truthy (DESCRIPTION p) then (Some NotImplementedError, s)
      else (let s1 = log_event (RunCalled a (cls_name p)) s;
                (acts, r) = run p a s1
            in run_actions a acts r s1))"

text \<open>
  How the body of the \<open>for\<close> loop ends: \<open>Continue\<close> goes on to the next parser class of the
  generator (the \<open>continue\<close> statement, or the end of the body), \<open>Break\<close> leaves the loop.
\<close>

datatype control = Continue | Break

definition body :: "config \<Rightarrow> addr \<Rightarrow> parser_class \<Rightarrow> state \<Rightarrow> control \<times> state" where
  "body cfg a p s =
     (let (r, s1) = execute p a (prepare a p s);
          s2 = log_event (Executed a (cls_name p) r) s1
      in case r of
           None \<Rightarrow> (if \<not> greedy cfg then Break else Continue, s2)
         | Some e \<Rightarrow>
             if e = UnableToParse
             then (Continue, debug (MsgMissIdentified (file_name (objs s2 a)) (DESCRIPTION p)) s2)
             else (if \<not> greedy cfg then Break else Continue, debug (MsgParserFailed (cls_name p)) s2))"

text \<open>The \<open>for\<close> loop of \<open>dispatch\<close> over the generator.\<close>

function for_loop :: "config \<Rightarrow> addr \<Rightarrow> gen \<Rightarrow> state \<Rightarrow> exn \<times> state + state" where
  "for_loop cfg a g s =
     (case identify_next cfg a g s of
        Inl e \<Rightarrow> Inl e
      | Inr (None, g', s1) \<Rightarrow> Inr s1
      | Inr (Some p, g', s1) \<Rightarrow>
          (case body cfg a p s1 of
             (Break, s2) \<Rightarrow> Inr s2
           | (Continue, s2) \<Rightarrow> for_loop cfg a g' s2))"
  by pat_completeness auto
termination
  by (relation "measure (\<lambda>(cfg, a, g, s). gen_size g)") (auto dest: identify_next_smaller)

text \<open>
  One round of the \<open>while\<close> loop of \<open>dispatch\<close>: \<open>pop\<close> takes the right end of the deque (and
  raises on an empty one), the parsers run, the file is output.
\<close>

definition process :: "config \<Rightarrow> state \<Rightarrow> exn \<times> state + state" where
  "process cfg s =
     (if fifo_buffer s = [] then Inl (IndexError, s)
      else (let file_object = last (fifo_buffer s);
                s1 = log_event (Dequeued file_object) (s\<lparr>fifo_buffer := butlast (fifo_buffer s)\<rparr>)
            in case for_loop cfg file_object (Gen (parsers cfg) False) s1 of
                 Inl e \<Rightarrow> Inl e
               | Inr s2 \<Rightarrow> Inr (call_output file_object s2)))"

text \<open>
  \<open>Dispatcher.dispatch\<close>. Parsers may enqueue files without end, so the loop has fuel: at
  most \<open>n\<close> rounds. \<open>None\<close> is a run that is not over after \<open>n\<close> rounds, \<open>Some (Inl (e, s))\<close>
  one that ended with the exception \<open>e\<close> in state \<open>s\<close>, \<open>Some (Inr s)\<close> one that returned.
\<close>

fun dispatch :: "nat \<Rightarrow> config \<Rightarrow> state \<Rightarrow> (exn \<times> state + state) option" where
  "dispatch 0 cfg s = (if fifo_buffer s = [] then Some (Inr s) else None)"
| "dispatch (Suc n) cfg s =
     (if fifo_buffer s = [] then Some (Inr s)
      else (case process cfg s of
              Inl e \<Rightarrow> Some (Inl e)
            | Inr s' \<Rightarrow> dispatch n cfg s'))"

text \<open>
  \<open>Dispatcher.run\<close>, the entry point: the input file of the reporter, under the base name of
  its path, is enqueued with \<open>output_file=False\<close> and dispatched.
\<close>

definition Dispatcher_run ::
  "nat \<Rightarrow> config \<Rightarrow> bytes \<Rightarrow> bool \<Rightarrow> string \<Rightarrow> string \<Rightarrow> state \<Rightarrow> (exn \<times> state + state) option" where
  "Dispatcher_run n cfg data pe basename original_filename s =
     (let s0 = debug MsgStarted s
      in case FileObject_init data pe (Some basename) original_filename None False True of
           Inl e \<Rightarrow> Some (Inl (e, s0))
         | Inr input_file \<Rightarrow>
             (let (a, s1) = new_object input_file s0
              in dispatch n cfg (add_to_queue a s1)))"

section \<open>The events of a run\<close>

text \<open>The entries of a trace of one kind, in order.\<close>

fun enqueued :: "event list \<Rightarrow> addr list" where
  "enqueued [] = []"
| "enqueued (Enqueued a # evs) = a # enqueued evs"
| "enqueued (e # evs) = enqueued evs"

fun dequeued :: "event list \<Rightarrow> addr list" where
  "dequeued [] = []"
| "dequeued (Dequeued a # evs) = a # dequeued evs"
| "dequeued (e # evs) = dequeued evs"

fun identify_calls :: "event list \<Rightarrow> (addr \<times> cls \<times> bool) list" where
  "identify_calls [] = []"
| "identify_calls (Identify a c b # evs) = (a, c, b) # identify_calls evs"
| "identify_calls (e # evs) = identify_calls evs"

fun run_called :: "event list \<Rightarrow> (addr \<times> cls) list" where
  "run_called [] = []"
| "run_called (RunCalled a c # evs) = (a, c) # run_called evs"
| "run_called (e # evs) = run_called evs"

fun executed :: "event list \<Rightarrow> (addr \<times> cls \<times> exn option) list" where
  "executed [] = []"
| "executed (Executed a c r # evs) = (a, c, r) # executed evs"
| "executed (e # evs) = executed evs"

fun output_called :: "event list \<Rightarrow> addr list" where
  "output_called [] = []"
| "output_called (OutputCalled a # evs) = a # output_called evs"
| "output_called (e # evs) = output_called evs"

text \<open>
  What the calls of a parser's \<open>run\<close> do between two states: they enqueue new file objects
  (at the left end of the deque, under fresh addresses) and call \<open>output\<close>, and leave the
  current file object alone.
\<close>

definition handler_step :: "state \<Rightarrow> state \<Rightarrow> event list \<Rightarrow> bool" where
  "handler_step s s' evs =
     (trace s' = trace s @ evs \<and> dequeued evs = [] \<and> identify_calls evs = [] \<and>
      run_called evs = [] \<and> executed evs = [] \<and>
      fifo_buffer s' = rev (enqueued evs) @ fifo_buffer s \<and>
      current_file_object s' = current_file_object s \<and>
      next_addr s \<le> next_addr s' \<and>
      (\<forall>b \<in> set (enqueued evs). next_addr s \<le> b \<and> b < next_addr s'))"

text \<open>What one pass through the body of the \<open>for\<close> loop does: \<open>evs\<close> are its events and \<open>r\<close> is what the
  \<open>try\<close> block raised.\<close>

definition body_step :: "config \<Rightarrow> addr \<Rightarrow> parser_class \<Rightarrow> state \<Rightarrow> control \<Rightarrow> state \<Rightarrow> event list \<Rightarrow> exn option \<Rightarrow> bool" where
  "body_step cfg a p s ctl s' evs r =
     (trace s' = trace s @ evs \<and> dequeued evs = [] \<and> identify_calls evs = [] \<and>
      executed evs = [(a, cls_name p, r)] \<and>
      run_called evs = (if truthy (DESCRIPTION p) then [(a, cls_name p)] else []) \<and>
      fifo_buffer s' = rev (enqueued evs) @ fifo_buffer s \<and>
      current_file_object s' = Some a \<and>
      next_addr s \<le> next_addr s' \<and>
      (\<forall>b \<in> set (enqueued evs). next_addr s \<le> b \<and> b < next_addr s') \<and>
      (ctl = Break) = (\<not> greedy cfg \<and> r \<noteq> Some UnableToParse))"

text \<open>What the \<open>for\<close> loop over the parsers of the file object at \<open>a\<close> does.\<close>

definition loop_step :: "addr \<Rightarrow> state \<Rightarrow> state \<Rightarrow> event list \<Rightarrow> bool" where
  "loop_step a s s' evs =
     (trace s' = trace s @ evs \<and> dequeued evs = [] \<and>
      fifo_buffer s' = rev (enqueued evs) @ fifo_buffer s \<and>
      current_file_object s' = (if executed evs = [] then current_file_object s else Some a) \<and>
      next_addr s \<le> next_addr s' \<and>
      (\<forall>b \<in> set (enqueued evs). next_addr s \<le> b \<and> b < next_addr s') \<and>
      (\<forall>x \<in> set (executed evs). fst x = a))"

text \<open>
  What one round of the \<open>while\<close> loop does: the file object at the right end of the deque is
  taken, \<open>evs\<close> are the events of its \<open>for\<close> loop, and \<open>output\<close> is called on it last.
\<close>

definition round_step :: "state \<Rightarrow> state \<Rightarrow> event list \<Rightarrow> bool" where
  "round_step s s' evs =
     (trace s' = trace s @ Dequeued (last (fifo_buffer s)) # evs @ [OutputCalled (last (fifo_buffer s))] \<and>
      dequeued evs = [] \<and>
      fifo_buffer s' = rev (enqueued evs) @ butlast (fifo_buffer s) \<and>
      current_file_object s' =
        (if executed evs = [] then current_file_object s else Some (last (fifo_buffer s))) \<and>
      (\<forall>x \<in> set (executed evs). fst x = last (fifo_buffer s)))"






text \<open>
  Conditions on the parser classes of a dispatcher: no \<open>identify\<close> raises; every class has a
  \<open>DESCRIPTION\<close>; no \<open>run\<close> enqueues a file.
\<close>

definition total_identify :: "config \<Rightarrow> bool" where
  "total_identify cfg = (\<forall>p \<in> set (parsers cfg). \<forall>fo. \<exists>r. identify p fo = Inr r)"


fun enqueues :: "action \<Rightarrow> bool" where
  "enqueues (AddToQueue d pe fn orig descr out use) = True"
| "enqueues x = False"

definition quiet :: "config \<Rightarrow> bool" where
  "quiet cfg = (\<forall>p \<in> set (parsers cfg) \<union> set_option (default' cfg).
     \<forall>a s. \<forall>x \<in> set (fst (run p a s)). \<not> enqueues x)"

text \<open>
  The \<open>identify\<close> methods of a list of parser classes called one after the other on a file
  object, each on the file object as the one before has left it.
\<close>

fun identify_chain :: "parser_class list \<Rightarrow> file_object \<Rightarrow> exn + bool list \<times> file_object" where
  "identify_chain [] fo = Inr ([], fo)"
| "identify_chain (p # ps) fo =
     (case identify p fo of
        Inl e \<Rightarrow> Inl e
      | Inr (b, fo1) \<Rightarrow>
          (case identify_chain ps fo1 of
             Inl e \<Rightarrow> Inl e
           | Inr (bs, fo2) \<Rightarrow> Inr (b # bs, fo2)))"

section \<open>Ancestors\<close>

text \<open>
  \<open>ancestors h a ps\<close>: in the store \<open>h\<close>, \<open>ps\<close> are the ancestors of the file object at \<open>a\<close>, its
  parent first and the root, which has no parent, last. The length of \<open>ps\<close> is the depth of
  \<open>a\<close> in the tree of extracted files, and \<open>rev ps\<close> is the chain of ancestors from the root
  down.
\<close>

fun ancestors :: "(addr \<Rightarrow> file_object) \<Rightarrow> addr \<Rightarrow> addr list \<Rightarrow> bool" where
  "ancestors h a [] = (parent (h a) = None)"
| "ancestors h a (p # ps) = (parent (h a) = Some p \<and> ancestors h p ps)"

section \<open>Example data\<close>

text \<open>A file object that may be output, and a reporter that already holds its name.\<close>

definition ex_file :: file_object where
  "ex_file = \<lparr>output_file = True, outputted_file = False, parent = None, parser = None,
     file_data = ''MZ'', file_name = ''a.bin'', description = None\<rparr>"

definition ex_sink :: reporter where
  "ex_sink = \<lparr>outputfiles = [''a.bin''], output_calls = [], debug_log = []\<rparr>"

text \<open>A dropper at 0, the loader it dropped at 1, and a file dropped by the loader at 2.\<close>

definition ex_heap :: "addr \<Rightarrow> file_object" where
  "ex_heap = (\<lambda>_. ex_file)
     (0 := ex_file\<lparr>parser := Some ''Dropper''\<rparr>,
      1 := ex_file\<lparr>parent := Some 0, parser := Some ''Loader''\<rparr>,
      2 := ex_file\<lparr>parent := Some 1\<rparr>)"

text \<open>
  Three parser classes. \<open>Loader\<close> takes files that start with \<open>MZ\<close>, stores a key into the
  knowledge base and enqueues a file it has extracted. \<open>Misfit\<close> takes every file, and then
  raises \<open>UnableToParse\<close>. \<open>Crasher\<close> takes every file and raises another exception.
\<close>

definition Loader :: parser_class where
  "Loader = \<lparr>cls_name = ''Loader'', DESCRIPTION = Some ''Loader'',
     identify = (\<lambda>fo. Inr (take 2 (file_data fo) = ''MZ'', fo)),
     run = (\<lambda>a s. ([KbStore ''xorkey'' ''k'',
                     AddToQueue ''payload'' False None ''X.bin'' None True True], None))\<rparr>"

definition Misfit :: parser_class where
  "Misfit = \<lparr>cls_name = ''Misfit'', DESCRIPTION = Some ''Misfit'',
     identify = (\<lambda>fo. Inr (True, fo)), run = (\<lambda>a s. ([], Some UnableToParse))\<rparr>"

definition Crasher :: parser_class where
  "Crasher = \<lparr>cls_name = ''Crasher'', DESCRIPTION = Some ''Crasher'',
     identify = (\<lambda>fo. Inr (True, fo)), run = (\<lambda>a s. ([], Some (OtherException ''boom'')))\<rparr>"

text \<open>
  A dispatcher with the parsers \<open>Misfit\<close> and \<open>Loader\<close> and the default \<open>UnidentifiedFile\<close>, and
  the state of a new dispatcher after \<open>add_to_queue\<close> of a first file, at address 0.
\<close>

definition ex_cfg :: "bool \<Rightarrow> config" where
  "ex_cfg g = \<lparr>parsers = [Misfit, Loader], greedy = g, default' = Some UnidentifiedFile\<rparr>"

definition ex_state :: state where
  "ex_state = add_to_queue 0 (snd (new_object (ex_file\<lparr>output_file := False\<rparr>)
      (snd (Dispatcher_init \<lparr>outputfiles = [], output_calls = [], debug_log = []\<rparr> None False None))))"

text \<open>
  The state after the first round of \<open>dispatch\<close>, and the state after the whole run, which
  takes two rounds.
\<close>

definition ex_round :: state where
  "ex_round = (case process (ex_cfg False) ex_state of Inr s \<Rightarrow> s | Inl (e, s) \<Rightarrow> s)"

definition ex_final :: state where
  "ex_final = (case dispatch 2 (ex_cfg False) ex_state of Some (Inr s) \<Rightarrow> s | _ \<Rightarrow> ex_state)"



text \<open>
  A state with two files in the queue, at 0 and at 1. A dispatcher whose only parser is
  \<open>Crasher\<close>, with the state after its run; and a dispatcher with a parser class that has not
  overwritten \<open>identify\<close>, with the state in which its run ends.
\<close>

definition ex_state2 :: state where
  "ex_state2 = add_to_queue 1 (snd (new_object ex_file ex_state))"

definition ex_crash_cfg :: config where
  "ex_crash_cfg = \<lparr>parsers = [Crasher], greedy = False, default' = Some UnidentifiedFile\<rparr>"

definition ex_crash_final :: state where
  "ex_crash_final = (case dispatch 2 ex_crash_cfg ex_state2 of Some (Inr s) \<Rightarrow> s | _ \<Rightarrow> ex_state2)"

definition ex_bad_cfg :: config where
  "ex_bad_cfg = \<lparr>parsers = [ComponentParser], greedy = False, default' = Some UnidentifiedFile\<rparr>"

definition ex_abort :: state where
  "ex_abort = (case dispatch 2 ex_bad_cfg ex_state2 of Some (Inl (e, s)) \<Rightarrow> s | _ \<Rightarrow> ex_state2)"

text \<open>
  The state in which the generator yields \<open>Misfit\<close> for the file object at 0, and the state in
  which the \<open>try\<close> block on \<open>Misfit\<close> ends.
\<close>

definition ex_yield :: state where
  "ex_yield =
     (case identify_next (ex_cfg False) 0 (Gen [Misfit, Loader] False) ex_state of
        Inr (q, g, s) \<Rightarrow> s
      | Inl (e, s) \<Rightarrow> s)"

definition ex_failed :: state where
  "ex_failed = snd (execute Misfit 0 (prepare 0 Misfit ex_yield))"

text \<open>
  A dispatcher whose only parser is \<open>Loader\<close>, a state in which the file object at 0 is not for
  \<open>Loader\<close> and has a description, and the state after the generator has run on it.
\<close>

definition ex_loader_cfg :: config where
  "ex_loader_cfg = \<lparr>parsers = [Loader], greedy = False, default' = Some UnidentifiedFile\<rparr>"

definition ex_described :: state where
  "ex_described =
     ex_state\<lparr>objs := (objs ex_state)(0 := ex_file\<lparr>file_data := ''PK'', description := Some ''archive''\<rparr>)\<rparr>"

definition ex_identified :: state where
  "ex_identified =
     (case identify_file ex_loader_cfg 0 (Gen (parsers ex_loader_cfg) False) ex_described of
        Inr (ps, s) \<Rightarrow> s
      | Inl (e, s) \<Rightarrow> s)"

section \<open>Lemmas about the loops\<close>

lemma enqueued_append [simp]: "enqueued (xs @ ys) = enqueued xs @ enqueued ys"
  by (induction xs rule: enqueued.induct) simp_all

lemma dequeued_append [simp]: "dequeued (xs @ ys) = dequeued xs @ dequeued ys"
  by (induction xs rule: dequeued.induct) simp_all

lemma identify_calls_append [simp]: "identify_calls (xs @ ys) = identify_calls xs @ identify_calls ys"
  by (induction xs rule: identify_calls.induct) simp_all

lemma run_called_append [simp]: "run_called (xs @ ys) = run_called xs @ run_called ys"
  by (induction xs rule: run_called.induct) simp_all

lemma executed_append [simp]: "executed (xs @ ys) = executed xs @ executed ys"
  by (induction xs rule: executed.induct) simp_all

lemma output_called_append [simp]: "output_called (xs @ ys) = output_called xs @ output_called ys"
  by (induction xs rule: output_called.induct) simp_all

lemma handler_step_refl: "handler_step s s []"
  by (simp add: handler_step_def)

lemma handler_step_trans:
  "handler_step s s1 e1 \<Longrightarrow> handler_step s1 s2 e2 \<Longrightarrow> handler_step s s2 (e1 @ e2)"
  by (fastforce simp: handler_step_def)

lemma call_output_step: "handler_step s (call_output a s) [OutputCalled a]"
  by (simp add: handler_step_def call_output_def log_event_def split: prod.splits)

lemma add_to_queue_fields:
  "fifo_buffer (add_to_queue a s) = a # fifo_buffer s"
  "trace (add_to_queue a s) = trace s @ [Enqueued a]"
  "current_file_object (add_to_queue a s) = current_file_object s"
  "next_addr (add_to_queue a s) = next_addr s"
  "objs (add_to_queue a s) = (objs s)(a := (objs s a)\<lparr>parent := current_file_object s\<rparr>)"
  by (simp_all add: add_to_queue_def log_event_def debug_def Let_def split: option.splits)

lemma add_to_queue_new_step:
  "handler_step s (add_to_queue (next_addr s) (snd (new_object fo s))) [Enqueued (next_addr s)]"
  by (simp add: handler_step_def add_to_queue_fields new_object_def)

lemma do_action_step:
  assumes "do_action a x s = Inr s'"
  shows "\<exists>evs. handler_step s s' evs"
proof (cases x)
  case (AddToQueue d pe fn orig descr out use)
  with assms obtain fo where "s' = add_to_queue (next_addr s) (snd (new_object fo s))"
    by (auto simp: new_object_def split: sum.splits)
  then show ?thesis using add_to_queue_new_step by blast
next
  case (SetFileName n)
  with assms show ?thesis by (auto simp: handler_step_def intro!: exI [of _ "[]"])
next
  case (SetDescription d)
  with assms show ?thesis by (auto simp: handler_step_def intro!: exI [of _ "[]"])
next
  case (KbStore k v)
  with assms show ?thesis by (auto simp: handler_step_def intro!: exI [of _ "[]"])
next
  case CallOutput
  with assms show ?thesis using call_output_step by auto
qed

lemma run_actions_step:
  "run_actions a acts r s = (r', s') \<Longrightarrow> \<exists>evs. handler_step s s' evs"
proof (induction acts arbitrary: s)
  case Nil
  then show ?case using handler_step_refl by auto
next
  case (Cons x xs)
  show ?case
  proof (cases "do_action a x s")
    case (Inl e)
    with Cons.prems show ?thesis using handler_step_refl by auto
  next
    case (Inr s1)
    with Cons.prems have "run_actions a xs r s1 = (r', s')" by simp
    from Cons.IH [OF this] do_action_step [OF Inr] show ?thesis
      using handler_step_trans by blast
  qed
qed

lemma execute_step:
  assumes "execute p a s = (r, s')"
  shows "\<exists>evs. trace s' = trace s @ evs \<and> dequeued evs = [] \<and> identify_calls evs = [] \<and>
      executed evs = [] \<and>
      run_called evs = (if truthy (DESCRIPTION p) then [(a, cls_name p)] else []) \<and>
      fifo_buffer s' = rev (enqueued evs) @ fifo_buffer s \<and>
      current_file_object s' = current_file_object s \<and>
      next_addr s \<le> next_addr s' \<and>
      (\<forall>b \<in> set (enqueued evs). next_addr s \<le> b \<and> b < next_addr s')"
proof (cases "truthy (DESCRIPTION p)")
  case False
  with assms show ?thesis by (auto simp: execute_def)
next
  case True
  obtain acts r0 where ar: "run p a (log_event (RunCalled a (cls_name p)) s) = (acts, r0)"
    by (cases "run p a (log_event (RunCalled a (cls_name p)) s)")
  with True assms have "run_actions a acts r0 (log_event (RunCalled a (cls_name p)) s) = (r, s')"
    by (simp add: execute_def Let_def)
  from run_actions_step [OF this] obtain evs
    where "handler_step (log_event (RunCalled a (cls_name p)) s) s' evs" ..
  then show ?thesis using True
    by (intro exI [of _ "RunCalled a (cls_name p) # evs"])
       (simp add: handler_step_def log_event_def)
qed

lemma body_step:
  assumes "body cfg a p s = (ctl, s')"
  shows "\<exists>evs r. body_step cfg a p s ctl s' evs r"
proof -
  obtain r s1 where ex: "execute p a (prepare a p s) = (r, s1)"
    by (cases "execute p a (prepare a p s)")
  from execute_step [OF ex] obtain evs where
    e: "trace s1 = trace (prepare a p s) @ evs" "dequeued evs = []" "identify_calls evs = []"
      "executed evs = []"
      "run_called evs = (if truthy (DESCRIPTION p) then [(a, cls_name p)] else [])"
      "fifo_buffer s1 = rev (enqueued evs) @ fifo_buffer (prepare a p s)"
      "current_file_object s1 = current_file_object (prepare a p s)"
      "next_addr (prepare a p s) \<le> next_addr s1"
      "\<forall>b \<in> set (enqueued evs). next_addr (prepare a p s) \<le> b \<and> b < next_addr s1"
    by blast
  have p: "trace (prepare a p s) = trace s" "fifo_buffer (prepare a p s) = fifo_buffer s"
    "current_file_object (prepare a p s) = Some a" "next_addr (prepare a p s) = next_addr s"
    by (simp_all add: prepare_def Let_def)
  have "body_step cfg a p s ctl s' (evs @ [Executed a (cls_name p) r]) r"
    using assms ex e p
    by (auto simp: body_def body_step_def Let_def log_event_def debug_def
        split: option.splits if_splits)
  then show ?thesis by blast
qed


declare for_loop.simps [simp del]

lemma for_loop_Exhausted: "for_loop cfg a Exhausted s = Inr s"
  by (simp add: for_loop.simps)

lemma for_loop_Nil:
  "for_loop cfg a (Gen [] identified) s =
     (if identified then Inr s
      else (let s1 = (if \<not> truthy (description (objs s a))
                      then debug (MsgNotIdentified (file_name (objs s a))) s else s)
            in case default' cfg of
                 None \<Rightarrow> Inr s1
               | Some d \<Rightarrow> Inr (snd (body cfg a d s1))))"
  by (simp add: for_loop.simps [of cfg a "Gen [] identified"] for_loop_Exhausted Let_def
      split: option.splits prod.splits control.splits)

lemma for_loop_Cons:
  "for_loop cfg a (Gen (p # ps) identified) s =
     (case identify p (objs s a) of
        Inl e \<Rightarrow> Inl (e, s)
      | Inr (b, fo) \<Rightarrow>
          (let s1 = log_event (Identify a (cls_name p) b) (s\<lparr>objs := (objs s)(a := fo)\<rparr>)
           in if b then
                (case body cfg a p (debug (MsgIdentified (file_name fo) (DESCRIPTION p)) s1) of
                   (Break, s2) \<Rightarrow> Inr s2
                 | (Continue, s2) \<Rightarrow> for_loop cfg a (Gen ps True) s2)
              else for_loop cfg a (Gen ps identified) s1))"
  by (simp add: for_loop.simps [of cfg a "Gen (p # ps) identified"]
        for_loop.simps [of cfg a "Gen ps identified"] Let_def
      split: sum.splits prod.splits)

lemma loop_step_refl: "loop_step a s s []"
  by (simp add: loop_step_def)

lemma loop_step_trans:
  "loop_step a s s1 e1 \<Longrightarrow> loop_step a s1 s2 e2 \<Longrightarrow> loop_step a s s2 (e1 @ e2)"
  by (fastforce simp: loop_step_def)

lemma loop_step_body: "body_step cfg a p s ctl s' evs r \<Longrightarrow> loop_step a s s' evs"
  by (simp add: body_step_def loop_step_def)

lemma loop_step_identify:
  "loop_step a s (log_event (Identify a c b) (s\<lparr>objs := h\<rparr>)) [Identify a c b]"
  by (simp add: loop_step_def log_event_def)

lemma loop_step_debug: "loop_step a s (debug m s) []"
  by (simp add: loop_step_def debug_def)

lemma for_loop_frame:
  "for_loop cfg a (Gen ps identified) s = Inr s' \<Longrightarrow> \<exists>evs. loop_step a s s' evs"
proof (induction ps arbitrary: s identified)
  case Nil
  show ?case
  proof (cases "identified \<or> default' cfg = None")
    case True
    with Nil have "s' = s \<or> s' = debug (MsgNotIdentified (file_name (objs s a))) s"
      by (auto simp: for_loop_Nil Let_def split: if_splits)
    then show ?thesis using loop_step_refl loop_step_debug by blast
  next
    case False
    then obtain d where d: "default' cfg = Some d" by auto
    define s1 where "s1 = (if \<not> truthy (description (objs s a))
                      then debug (MsgNotIdentified (file_name (objs s a))) s else s)"
    have 1: "loop_step a s s1 []" using loop_step_refl loop_step_debug by (simp add: s1_def)
    from Nil False d have "s' = snd (body cfg a d s1)" by (simp add: for_loop_Nil s1_def)
    then obtain ctl where "body cfg a d s1 = (ctl, s')" by (cases "body cfg a d s1") simp
    from body_step [OF this] loop_step_body obtain evs where "loop_step a s1 s' evs" by blast
    from loop_step_trans [OF 1 this] show ?thesis by blast
  qed
next
  case (Cons p ps)
  from Cons.prems obtain b fo where id: "identify p (objs s a) = Inr (b, fo)"
    by (auto simp: for_loop_Cons split: sum.splits)
  define s1 where "s1 = log_event (Identify a (cls_name p) b) (s\<lparr>objs := (objs s)(a := fo)\<rparr>)"
  have 1: "loop_step a s s1 [Identify a (cls_name p) b]"
    unfolding s1_def by (rule loop_step_identify)
  show ?case
  proof (cases b)
    case False
    with Cons.prems id have "for_loop cfg a (Gen ps identified) s1 = Inr s'"
      by (simp add: for_loop_Cons s1_def)
    from Cons.IH [OF this] loop_step_trans [OF 1] show ?thesis by blast
  next
    case True
    define s1' where "s1' = debug (MsgIdentified (file_name fo) (DESCRIPTION p)) s1"
    have "loop_step a s1 s1' []" unfolding s1'_def by (rule loop_step_debug)
    from loop_step_trans [OF 1 this] have 2: "loop_step a s s1' [Identify a (cls_name p) b]" by simp
    obtain ctl s2 where bd: "body cfg a p s1' = (ctl, s2)" by (cases "body cfg a p s1'")
    from body_step [OF bd] loop_step_body obtain e2 where "loop_step a s1' s2 e2" by blast
    from loop_step_trans [OF 2 this] have 3: "loop_step a s s2 ([Identify a (cls_name p) b] @ e2)" .
    show ?thesis
    proof (cases ctl)
      case Break
      with Cons.prems id True bd have "s' = s2" by (simp add: for_loop_Cons s1_def s1'_def)
      with 3 show ?thesis by blast
    next
      case Continue
      with Cons.prems id True bd have "for_loop cfg a (Gen ps True) s2 = Inr s'"
        by (simp add: for_loop_Cons s1_def s1'_def)
      from Cons.IH [OF this] loop_step_trans [OF 3] show ?thesis by blast
    qed
  qed
qed


lemma call_output_fields:
  "fifo_buffer (call_output a s) = fifo_buffer s"
  "trace (call_output a s) = trace s @ [OutputCalled a]"
  "current_file_object (call_output a s) = current_file_object s"
  "next_addr (call_output a s) = next_addr s"
  by (simp_all add: call_output_def log_event_def split: prod.splits)

lemma process_round:
  assumes "fifo_buffer s \<noteq> []" and "process cfg s = Inr s'"
  shows "\<exists>evs. round_step s s' evs"
proof -
  define a where "a = last (fifo_buffer s)"
  define s1 where "s1 = log_event (Dequeued a) (s\<lparr>fifo_buffer := butlast (fifo_buffer s)\<rparr>)"
  from assms obtain s2 where fl: "for_loop cfg a (Gen (parsers cfg) False) s1 = Inr s2"
    and s': "s' = call_output a s2"
    by (auto simp: process_def Let_def a_def s1_def split: sum.splits)
  from for_loop_frame [OF fl] obtain evs where "loop_step a s1 s2 evs" ..
  then have "round_step s s' evs"
    by (simp add: loop_step_def round_step_def s' call_output_fields s1_def log_event_def a_def)
  then show ?thesis ..
qed





lemma history_loop_ancestors:
  "ancestors h a ps \<Longrightarrow>
   history_loop h acc (parent (h a)) = Some (acc @ map (\<lambda>x. parser (h x)) ps)"
proof (induction ps arbitrary: a acc)
  case Nil
  then show ?case by (simp add: history_loop.simps)
next
  case (Cons p ps)
  then have "history_loop h acc (parent (h a)) =
      history_loop h (acc @ [parser (h p)]) (parent (h p))"
    by (subst history_loop.simps) simp
  with Cons show ?case by simp
qed

lemma loop_step_trace: "loop_step a s s' evs \<Longrightarrow> trace s' = trace s @ evs"
  by (simp add: loop_step_def)

lemma for_loop_NilE:
  assumes "for_loop cfg a (Gen [] identified) s = Inr s'" and "trace s' = trace s @ evs"
  obtains (none) "identified \<or> default' cfg = None" "evs = []"
    | (dflt) d s1 ctl r where "\<not> identified" "default' cfg = Some d" "body_step cfg a d s1 ctl s' evs r"
proof (cases "identified \<or> default' cfg = None")
  case True
  with assms(1) have "trace s' = trace s"
    by (auto simp: for_loop_Nil Let_def debug_def split: if_splits)
  with assms(2) True none show ?thesis by simp
next
  case False
  then obtain d where d: "default' cfg = Some d" and n: "\<not> identified" by auto
  define s1 where "s1 = (if \<not> truthy (description (objs s a))
                      then debug (MsgNotIdentified (file_name (objs s a))) s else s)"
  have t: "trace s1 = trace s" by (simp add: s1_def debug_def)
  from assms(1) n d have "s' = snd (body cfg a d s1)" by (simp add: for_loop_Nil s1_def)
  then obtain ctl where "body cfg a d s1 = (ctl, s')" by (cases "body cfg a d s1") simp
  from body_step [OF this] obtain e r where b: "body_step cfg a d s1 ctl s' e r" by blast
  then have "trace s' = trace s1 @ e" by (simp add: body_step_def)
  with t assms(2) have "e = evs" by simp
  with b dflt [OF n d] show ?thesis by blast
qed

lemma for_loop_ConsE:
  assumes "for_loop cfg a (Gen (p # ps) identified) s = Inr s'" and "trace s' = trace s @ evs"
  obtains (skip) fo s1 e where "identify p (objs s a) = Inr (False, fo)"
      "for_loop cfg a (Gen ps identified) s1 = Inr s'" "trace s' = trace s1 @ e"
      "evs = Identify a (cls_name p) False # e"
    | (brk) fo s1 e r where "identify p (objs s a) = Inr (True, fo)"
      "body_step cfg a p s1 Break s' e r" "evs = Identify a (cls_name p) True # e"
    | (cont) fo s1 s2 e r e' where "identify p (objs s a) = Inr (True, fo)"
      "body_step cfg a p s1 Continue s2 e r" "for_loop cfg a (Gen ps True) s2 = Inr s'"
      "trace s' = trace s2 @ e'" "evs = Identify a (cls_name p) True # e @ e'"
proof -
  from assms(1) obtain b fo where id: "identify p (objs s a) = Inr (b, fo)"
    by (auto simp: for_loop_Cons split: sum.splits)
  define s1 where "s1 = log_event (Identify a (cls_name p) b) (s\<lparr>objs := (objs s)(a := fo)\<rparr>)"
  have t1: "trace s1 = trace s @ [Identify a (cls_name p) b]" by (simp add: s1_def log_event_def)
  show ?thesis
  proof (cases b)
    case False
    with assms(1) id have fl: "for_loop cfg a (Gen ps identified) s1 = Inr s'"
      by (simp add: for_loop_Cons s1_def)
    from for_loop_frame [OF fl] obtain e where "trace s' = trace s1 @ e"
      using loop_step_trace by blast
    with t1 assms(2) False id fl skip show ?thesis by auto
  next
    case True
    define s1' where "s1' = debug (MsgIdentified (file_name fo) (DESCRIPTION p)) s1"
    have t1': "trace s1' = trace s @ [Identify a (cls_name p) b]"
      by (simp add: s1'_def debug_def t1)
    obtain ctl s2 where bd: "body cfg a p s1' = (ctl, s2)" by (cases "body cfg a p s1'")
    from body_step [OF bd] obtain e r where b: "body_step cfg a p s1' ctl s2 e r" by blast
    then have t2: "trace s2 = trace s1' @ e" by (simp add: body_step_def)
    show ?thesis
    proof (cases ctl)
      case Break
      with assms(1) id True bd have "s' = s2" by (simp add: for_loop_Cons s1_def s1'_def)
      with b Break t2 t1' assms(2) True id brk show ?thesis by auto
    next
      case Continue
      with assms(1) id True bd have fl: "for_loop cfg a (Gen ps True) s2 = Inr s'"
        by (simp add: for_loop_Cons s1_def s1'_def)
      from for_loop_frame [OF fl] obtain e' where t3: "trace s' = trace s2 @ e'"
        using loop_step_trace by blast
      with t2 t1' assms(2) True have "evs = Identify a (cls_name p) True # e @ e'" by simp
      with b Continue True id fl t3 cont show ?thesis by auto
    qed
  qed
qed

lemma for_loop_non_greedy:
  "\<not> greedy cfg \<Longrightarrow> for_loop cfg a (Gen ps identified) s = Inr s' \<Longrightarrow> trace s' = trace s @ evs \<Longrightarrow>
   \<forall>x \<in> set (butlast (executed evs)). snd (snd x) = Some UnableToParse"
proof (induction ps arbitrary: s identified evs)
  case Nil
  from Nil(2,3) show ?case
    by (cases rule: for_loop_NilE) (auto simp: body_step_def)
next
  case (Cons p ps)
  from Cons.prems(2,3) show ?case
  proof (cases rule: for_loop_ConsE)
    case (skip fo s1 e)
    with Cons.IH [OF Cons.prems(1) skip(2,3)] show ?thesis by simp
  next
    case (brk fo s1 e r)
    then show ?thesis by (simp add: body_step_def)
  next
    case (cont fo s1 s2 e r e')
    from cont(2) Cons.prems(1) have "r = Some UnableToParse" by (simp add: body_step_def)
    with cont Cons.IH [OF Cons.prems(1) cont(3,4)] show ?thesis
      by (auto simp: body_step_def dest: in_set_butlastD)
  qed
qed


lemma for_loop_run_called:
  "for_loop cfg a (Gen ps identified) s = Inr s' \<Longrightarrow> trace s' = trace s @ evs \<Longrightarrow>
   length (run_called evs) \<le> length (executed evs) \<and>
   ((\<forall>p \<in> set ps \<union> set_option (default' cfg). truthy (DESCRIPTION p)) \<longrightarrow>
      run_called evs = map (\<lambda>x. (fst x, fst (snd x))) (executed evs))"
proof (induction ps arbitrary: s identified evs)
  case Nil
  from Nil(1,2) show ?case
    by (cases rule: for_loop_NilE) (auto simp: body_step_def)
next
  case (Cons p ps)
  from Cons.prems(1,2) show ?case
  proof (cases rule: for_loop_ConsE)
    case (skip fo s1 e)
    with Cons.IH [OF skip(2,3)] show ?thesis by simp
  next
    case (brk fo s1 e r)
    then show ?thesis by (simp add: body_step_def)
  next
    case (cont fo s1 s2 e r e')
    with Cons.IH [OF cont(3,4)] show ?thesis by (simp add: body_step_def)
  qed
qed

lemma for_loop_total:
  "\<forall>p \<in> set ps. \<forall>fo. \<exists>r. identify p fo = Inr r \<Longrightarrow> \<exists>s'. for_loop cfg a (Gen ps identified) s = Inr s'"
proof (induction ps arbitrary: s identified)
  case Nil
  show ?case by (simp add: for_loop_Nil Let_def split: option.splits)
next
  case (Cons p ps)
  from Cons.prems obtain b fo where id: "identify p (objs s a) = Inr (b, fo)" by fastforce
  from Cons.prems have "\<forall>p \<in> set ps. \<forall>fo. \<exists>r. identify p fo = Inr r" by simp
  note ih = Cons.IH [OF this]
  show ?case
  proof (cases b)
    case False
    with id ih show ?thesis by (simp add: for_loop_Cons)
  next
    case True
    with id ih show ?thesis
      by (simp add: for_loop_Cons Let_def split: prod.splits control.splits)
  qed
qed

lemma process_total:
  assumes "total_identify cfg" and "fifo_buffer s \<noteq> []"
  shows "\<exists>s'. process cfg s = Inr s'"
proof -
  from assms(1) have "\<forall>p \<in> set (parsers cfg). \<forall>fo. \<exists>r. identify p fo = Inr r"
    by (simp add: total_identify_def)
  from for_loop_total [OF this] obtain s2 where
    "for_loop cfg (last (fifo_buffer s)) (Gen (parsers cfg) False)
       (log_event (Dequeued (last (fifo_buffer s))) (s\<lparr>fifo_buffer := butlast (fifo_buffer s)\<rparr>)) = Inr s2"
    by blast
  with assms(2) show ?thesis by (simp add: process_def Let_def)
qed

text \<open>A round as the for loop sees it.\<close>

lemma process_for_loop:
  assumes "fifo_buffer s \<noteq> []" and "process cfg s = Inr s'"
  obtains s1 s2 evs where
    "for_loop cfg (last (fifo_buffer s)) (Gen (parsers cfg) False) s1 = Inr s2"
    "trace s2 = trace s1 @ evs" "round_step s s' evs"
proof -
  define a where "a = last (fifo_buffer s)"
  define s1 where "s1 = log_event (Dequeued a) (s\<lparr>fifo_buffer := butlast (fifo_buffer s)\<rparr>)"
  from assms obtain s2 where fl: "for_loop cfg a (Gen (parsers cfg) False) s1 = Inr s2"
    and s': "s' = call_output a s2"
    by (auto simp: process_def Let_def a_def s1_def split: sum.splits)
  from for_loop_frame [OF fl] obtain evs where l: "loop_step a s1 s2 evs" ..
  then have "round_step s s' evs"
    by (simp add: loop_step_def round_step_def s' call_output_fields s1_def log_event_def a_def)
  with fl l that show ?thesis by (auto simp: a_def loop_step_def)
qed

lemma do_action_quiet:
  "\<not> enqueues x \<Longrightarrow> do_action a x s = Inr s' \<Longrightarrow> fifo_buffer s' = fifo_buffer s"
  by (cases x) (auto simp: call_output_fields)

lemma run_actions_quiet:
  "\<forall>x \<in> set acts. \<not> enqueues x \<Longrightarrow> fifo_buffer (snd (run_actions a acts r s)) = fifo_buffer s"
proof (induction acts arbitrary: s)
  case Nil
  then show ?case by simp
next
  case (Cons x xs)
  then show ?case by (cases "do_action a x s") (auto dest: do_action_quiet)
qed

lemma execute_quiet:
  assumes "\<forall>a s. \<forall>x \<in> set (fst (run p a s)). \<not> enqueues x"
  shows "fifo_buffer (snd (execute p a s)) = fifo_buffer s"
proof (cases "truthy (DESCRIPTION p)")
  case False
  then show ?thesis by (simp add: execute_def)
next
  case True
  define s1 where "s1 = log_event (RunCalled a (cls_name p)) s"
  obtain acts r0 where ar: "run p a s1 = (acts, r0)" by (cases "run p a s1")
  with assms have "\<forall>x \<in> set acts. \<not> enqueues x" by (metis fst_conv)
  from run_actions_quiet [OF this] have "fifo_buffer (snd (run_actions a acts r0 s1)) = fifo_buffer s1" .
  moreover have "fifo_buffer s1 = fifo_buffer s" by (simp add: s1_def log_event_def)
  moreover from True ar have "execute p a s = run_actions a acts r0 s1"
    by (simp add: execute_def Let_def s1_def)
  ultimately show ?thesis by simp
qed

lemma body_quiet:
  assumes "\<forall>a s. \<forall>x \<in> set (fst (run p a s)). \<not> enqueues x"
  shows "fifo_buffer (snd (body cfg a p s)) = fifo_buffer s"
proof -
  obtain r s1 where ex: "execute p a (prepare a p s) = (r, s1)"
    by (cases "execute p a (prepare a p s)")
  with execute_quiet [OF assms, of a "prepare a p s"] have "fifo_buffer s1 = fifo_buffer s"
    by (simp add: prepare_def Let_def)
  with ex show ?thesis
    by (cases r) (simp_all add: body_def Let_def log_event_def debug_def)
qed

lemma for_loop_quiet:
  "\<forall>p \<in> set ps \<union> set_option (default' cfg). \<forall>a s. \<forall>x \<in> set (fst (run p a s)). \<not> enqueues x \<Longrightarrow>
   for_loop cfg a (Gen ps identified) s = Inr s' \<Longrightarrow> fifo_buffer s' = fifo_buffer s"
proof (induction ps arbitrary: s identified)
  case Nil
  show ?case
  proof (cases "identified \<or> default' cfg = None")
    case True
    with Nil(2) show ?thesis by (auto simp: for_loop_Nil Let_def debug_def split: if_splits)
  next
    case False
    then obtain d where d: "default' cfg = Some d" by auto
    with Nil(1) have "\<forall>a s. \<forall>x \<in> set (fst (run d a s)). \<not> enqueues x" by simp
    from body_quiet [OF this] Nil(2) False d show ?thesis
      by (auto simp: for_loop_Nil Let_def debug_def split: if_splits)
  qed
next
  case (Cons p ps)
  from Cons.prems(2) obtain b fo where id: "identify p (objs s a) = Inr (b, fo)"
    by (auto simp: for_loop_Cons split: sum.splits)
  define s1 where "s1 = log_event (Identify a (cls_name p) b) (s\<lparr>objs := (objs s)(a := fo)\<rparr>)"
  have f1: "fifo_buffer s1 = fifo_buffer s" by (simp add: s1_def log_event_def)
  from Cons.prems(1) have q: "\<forall>a s. \<forall>x \<in> set (fst (run p a s)). \<not> enqueues x"
    and qs: "\<forall>p \<in> set ps \<union> set_option (default' cfg). \<forall>a s. \<forall>x \<in> set (fst (run p a s)). \<not> enqueues x"
    by simp_all
  show ?case
  proof (cases b)
    case False
    with Cons.prems(2) id have "for_loop cfg a (Gen ps identified) s1 = Inr s'"
      by (simp add: for_loop_Cons s1_def)
    from Cons.IH [OF qs this] f1 show ?thesis by simp
  next
    case True
    define s1' where "s1' = debug (MsgIdentified (file_name fo) (DESCRIPTION p)) s1"
    have f1': "fifo_buffer s1' = fifo_buffer s" by (simp add: s1'_def debug_def f1)
    obtain ctl s2 where bd: "body cfg a p s1' = (ctl, s2)" by (cases "body cfg a p s1'")
    with body_quiet [OF q, of cfg a s1'] f1' have f2: "fifo_buffer s2 = fifo_buffer s" by simp
    show ?thesis
    proof (cases ctl)
      case Break
      with Cons.prems(2) id True bd have "s' = s2" by (simp add: for_loop_Cons s1_def s1'_def)
      with f2 show ?thesis by simp
    next
      case Continue
      with Cons.prems(2) id True bd have "for_loop cfg a (Gen ps True) s2 = Inr s'"
        by (simp add: for_loop_Cons s1_def s1'_def)
      from Cons.IH [OF qs this] f2 show ?thesis by simp
    qed
  qed
qed

lemma process_quiet:
  assumes "quiet cfg" and "fifo_buffer s \<noteq> []" and "process cfg s = Inr s'"
  shows "fifo_buffer s' = butlast (fifo_buffer s)"
proof -
  from assms(1) have q: "\<forall>p \<in> set (parsers cfg) \<union> set_option (default' cfg).
      \<forall>a s. \<forall>x \<in> set (fst (run p a s)). \<not> enqueues x"
    by (simp add: quiet_def)
  from assms(2,3) obtain s2 where
    fl: "for_loop cfg (last (fifo_buffer s)) (Gen (parsers cfg) False)
       (log_event (Dequeued (last (fifo_buffer s))) (s\<lparr>fifo_buffer := butlast (fifo_buffer s)\<rparr>)) = Inr s2"
    and s': "s' = call_output (last (fifo_buffer s)) s2"
    by (auto simp: process_def Let_def split: sum.splits)
  from for_loop_quiet [OF q fl] s' show ?thesis by (simp add: call_output_fields log_event_def)
qed

lemma dispatch_quiet_total:
  "quiet cfg \<Longrightarrow> total_identify cfg \<Longrightarrow> length (fifo_buffer s) \<le> n \<Longrightarrow>
   \<exists>s'. dispatch n cfg s = Some (Inr s')"
proof (induction n arbitrary: s)
  case 0
  then show ?case by simp
next
  case (Suc n)
  show ?case
  proof (cases "fifo_buffer s = []")
    case True
    then show ?thesis by simp
  next
    case False
    from process_total [OF Suc.prems(2) False] obtain s1 where p: "process cfg s = Inr s1" ..
    from process_quiet [OF Suc.prems(1) False p] Suc.prems(3) have "length (fifo_buffer s1) \<le> n"
      by simp
    from Suc.IH [OF Suc.prems(1,2) this] p False show ?thesis by simp
  qed
qed

lemma dispatch_no_abort:
  "total_identify cfg \<Longrightarrow> dispatch n cfg s \<noteq> Some (Inl e)"
proof (induction n arbitrary: s)
  case 0
  then show ?case by simp
next
  case (Suc n)
  show ?case
  proof (cases "fifo_buffer s = []")
    case True
    then show ?thesis by simp
  next
    case False
    from process_total [OF Suc.prems False] obtain s1 where p: "process cfg s = Inr s1" ..
    with Suc.IH [OF Suc.prems, of s1] False show ?thesis by simp
  qed
qed

lemma dispatch_outputs:
  "dispatch n cfg s = Some (Inr s') \<Longrightarrow>
   fifo_buffer s' = [] \<and>
   (\<exists>evs. trace s' = trace s @ evs \<and> set (dequeued evs) \<subseteq> set (output_called evs))"
proof (induction n arbitrary: s)
  case 0
  then show ?case by (auto split: if_splits)
next
  case (Suc n)
  show ?case
  proof (cases "fifo_buffer s = []")
    case True
    with Suc.prems show ?thesis by auto
  next
    case False
    with Suc.prems obtain s1 where p: "process cfg s = Inr s1" and d: "dispatch n cfg s1 = Some (Inr s')"
      by (auto split: sum.splits)
    from process_round [OF False p] obtain e1 where r: "round_step s s1 e1" ..
    from Suc.IH [OF d] obtain e2 where e: "fifo_buffer s' = []" "trace s' = trace s1 @ e2"
      "set (dequeued e2) \<subseteq> set (output_called e2)" by blast
    define evs where "evs = Dequeued (last (fifo_buffer s)) # e1 @ [OutputCalled (last (fifo_buffer s))] @ e2"
    from r e have "trace s' = trace s @ evs" "set (dequeued evs) \<subseteq> set (output_called evs)"
      by (auto simp: round_step_def evs_def)
    with e(1) show ?thesis by blast
  qed
qed

lemma butlast_filter_le:
  "\<forall>x \<in> set (butlast xs). P x \<Longrightarrow> length (filter (\<lambda>x. \<not> P x) xs) \<le> 1"
  by (cases xs rule: rev_cases) simp_all


lemma identify_next_no_match:
  "identify_chain ps (objs s a) = Inr (bs, fo) \<Longrightarrow> True \<notin> set bs \<Longrightarrow>
   \<exists>s'. identify_next cfg a (Gen ps identified) s = identify_next cfg a (Gen [] identified) s' \<and>
        objs s' a = fo \<and> reporter s' = reporter s"
proof (induction ps arbitrary: s bs)
  case Nil
  then show ?case by auto
next
  case (Cons p ps)
  from Cons.prems(1) obtain b fo1 bs1 where id: "identify p (objs s a) = Inr (b, fo1)"
    and ch: "identify_chain ps fo1 = Inr (bs1, fo)" and bs: "bs = b # bs1"
    by (auto split: sum.splits)
  define s1 where "s1 = log_event (Identify a (cls_name p) b) (s\<lparr>objs := (objs s)(a := fo1)\<rparr>)"
  have o: "objs s1 a = fo1" and r: "reporter s1 = reporter s" by (simp_all add: s1_def log_event_def)
  from bs Cons.prems(2) have nb: "\<not> b" and n1: "True \<notin> set bs1" by auto
  from ch o have "identify_chain ps (objs s1 a) = Inr (bs1, fo)" by simp
  from Cons.IH [OF this n1] obtain s' where
    "identify_next cfg a (Gen ps identified) s1 = identify_next cfg a (Gen [] identified) s'"
    "objs s' a = fo" "reporter s' = reporter s1" by blast
  moreover from id nb have "identify_next cfg a (Gen (p # ps) identified) s =
      identify_next cfg a (Gen ps identified) s1"
    by (simp add: s1_def)
  ultimately show ?case using r by auto
qed

text \<open>Evaluation of the examples.\<close>

lemmas run_eval = process_def body_def execute_def prepare_def call_output_def FileObject_output_def
  add_to_queue_def new_object_def debug_def log_event_def reporter_debug_def reporter_output_file_def
  truthy_def Let_def Dispatcher_init_def FileObject_init_def for_loop_Nil for_loop_Cons
  for_loop_Exhausted numeral_2_eq_2 UnidentifiedFile_def ComponentParser_def

lemma ex_state_eval:
  "trace ex_state = [Enqueued 0]"
  "fifo_buffer ex_state = [0]"
  "current_file_object ex_state = None"
  "parent (objs ex_state 0) = None"
  "next_addr ex_state = 1"
  by (simp_all add: ex_state_def add_to_queue_fields new_object_def Dispatcher_init_def)

lemma ex_state2_eval:
  "trace ex_state2 = [Enqueued 0, Enqueued 1]"
  "fifo_buffer ex_state2 = [1, 0]"
  by (simp_all add: ex_state2_def ex_state_eval add_to_queue_fields new_object_def)

lemma ex_round_case:
  "case process (ex_cfg False) ex_state of
     Inr s \<Rightarrow>
       trace s =
         [Enqueued 0, Dequeued 0, Identify 0 ''Misfit'' True, RunCalled 0 ''Misfit'',
          Executed 0 ''Misfit'' (Some UnableToParse), Identify 0 ''Loader'' True,
          RunCalled 0 ''Loader'', Enqueued 1, Executed 0 ''Loader'' None, OutputCalled 0] \<and>
       fifo_buffer s = [1] \<and> current_file_object s = Some 0 \<and>
       parent (objs s 0) = None \<and> parent (objs s 1) = Some 0 \<and>
       description (objs s 0) = Some ''Misfit''
   | Inl e \<Rightarrow> False"
  by (simp add: run_eval ex_cfg_def ex_state_def ex_file_def Misfit_def Loader_def)

lemma ex_round_eval:
  "process (ex_cfg False) ex_state = Inr ex_round"
  "trace ex_round =
     [Enqueued 0, Dequeued 0, Identify 0 ''Misfit'' True, RunCalled 0 ''Misfit'',
      Executed 0 ''Misfit'' (Some UnableToParse), Identify 0 ''Loader'' True,
      RunCalled 0 ''Loader'', Enqueued 1, Executed 0 ''Loader'' None, OutputCalled 0]"
  "fifo_buffer ex_round = [1]"
  "current_file_object ex_round = Some 0"
  "parent (objs ex_round 0) = None"
  "parent (objs ex_round 1) = Some 0"
  "description (objs ex_round 0) = Some ''Misfit''"
  using ex_round_case by (auto simp: ex_round_def split: sum.splits)

lemma ex_final_case:
  "case dispatch 2 (ex_cfg False) ex_state of
     Some (Inr s) \<Rightarrow>
       trace s =
         [Enqueued 0, Dequeued 0, Identify 0 ''Misfit'' True, RunCalled 0 ''Misfit'',
          Executed 0 ''Misfit'' (Some UnableToParse), Identify 0 ''Loader'' True,
          RunCalled 0 ''Loader'', Enqueued 1, Executed 0 ''Loader'' None, OutputCalled 0,
          Dequeued 1, Identify 1 ''Misfit'' True, RunCalled 1 ''Misfit'',
          Executed 1 ''Misfit'' (Some UnableToParse), Identify 1 ''Loader'' False, OutputCalled 1] \<and>
       fifo_buffer s = [] \<and> current_file_object s = Some 1 \<and>
       parent (objs s 1) = Some 0 \<and> next_addr s = 2
   | _ \<Rightarrow> False"
  by (simp add: run_eval ex_cfg_def ex_state_def ex_file_def Misfit_def Loader_def)

lemma ex_final_eval:
  "dispatch 2 (ex_cfg False) ex_state = Some (Inr ex_final)"
  "trace ex_final =
     [Enqueued 0, Dequeued 0, Identify 0 ''Misfit'' True, RunCalled 0 ''Misfit'',
      Executed 0 ''Misfit'' (Some UnableToParse), Identify 0 ''Loader'' True,
      RunCalled 0 ''Loader'', Enqueued 1, Executed 0 ''Loader'' None, OutputCalled 0,
      Dequeued 1, Identify 1 ''Misfit'' True, RunCalled 1 ''Misfit'',
      Executed 1 ''Misfit'' (Some UnableToParse), Identify 1 ''Loader'' False, OutputCalled 1]"
  "fifo_buffer ex_final = []"
  "current_file_object ex_final = Some 1"
  "parent (objs ex_final 1) = Some 0"
  "next_addr ex_final = 2"
  using ex_final_case by (auto simp: ex_final_def split: option.splits sum.splits)



lemma ex_crash_final_case:
  "case dispatch 2 ex_crash_cfg ex_state2 of
     Some (Inr s) \<Rightarrow>
       trace s =
         [Enqueued 0, Enqueued 1, Dequeued 0, Identify 0 ''Crasher'' True, RunCalled 0 ''Crasher'',
          Executed 0 ''Crasher'' (Some (OtherException ''boom'')), OutputCalled 0,
          Dequeued 1, Identify 1 ''Crasher'' True, RunCalled 1 ''Crasher'',
          Executed 1 ''Crasher'' (Some (OtherException ''boom'')), OutputCalled 1] \<and>
       fifo_buffer s = []
   | _ \<Rightarrow> False"
  by (simp add: run_eval ex_crash_cfg_def ex_state2_def ex_state_def ex_file_def Crasher_def)

lemma ex_crash_final_eval:
  "dispatch 2 ex_crash_cfg ex_state2 = Some (Inr ex_crash_final)"
  "trace ex_crash_final =
     [Enqueued 0, Enqueued 1, Dequeued 0, Identify 0 ''Crasher'' True, RunCalled 0 ''Crasher'',
      Executed 0 ''Crasher'' (Some (OtherException ''boom'')), OutputCalled 0,
      Dequeued 1, Identify 1 ''Crasher'' True, RunCalled 1 ''Crasher'',
      Executed 1 ''Crasher'' (Some (OtherException ''boom'')), OutputCalled 1]"
  "fifo_buffer ex_crash_final = []"
  using ex_crash_final_case by (auto simp: ex_crash_final_def split: option.splits sum.splits)

lemma ex_abort_case:
  "case dispatch 2 ex_bad_cfg ex_state2 of
     Some (Inl (e, s)) \<Rightarrow>
       e = NotImplementedError \<and> trace s = [Enqueued 0, Enqueued 1, Dequeued 0] \<and> fifo_buffer s = [1]
   | _ \<Rightarrow> False"
  by (simp add: run_eval ex_bad_cfg_def ex_state2_def ex_state_def ex_file_def)

lemma ex_abort_eval:
  "dispatch 2 ex_bad_cfg ex_state2 = Some (Inl (NotImplementedError, ex_abort))"
  "trace ex_abort = [Enqueued 0, Enqueued 1, Dequeued 0]"
  "fifo_buffer ex_abort = [1]"
  using ex_abort_case by (auto simp: ex_abort_def split: option.splits sum.splits)

lemma ex_yield_eval:
  "identify_next (ex_cfg False) 0 (Gen [Misfit, Loader] False) ex_state =
     Inr (Some Misfit, Gen [Loader] True, ex_yield)"
  "description (objs ex_yield 0) = None"
  "fifo_buffer ex_yield = [0]"
  "next_addr ex_yield = 1"
  by (simp_all add: ex_yield_def run_eval ex_cfg_def ex_state_def ex_file_def Misfit_def Loader_def)

lemma ex_failed_eval:
  "execute Misfit 0 (prepare 0 Misfit ex_yield) = (Some UnableToParse, ex_failed)"
  "description (objs ex_failed 0) = Some ''Misfit''"
  "fifo_buffer ex_failed = [0]"
  by (simp_all add: ex_failed_def ex_yield_def run_eval ex_cfg_def ex_state_def ex_file_def Misfit_def Loader_def)

lemma ex_identified_eval:
  "identify_file ex_loader_cfg 0 (Gen (parsers ex_loader_cfg) False) ex_described =
     Inr ([UnidentifiedFile], ex_identified)"
  "identify_chain (parsers ex_loader_cfg) (objs ex_described 0) = Inr ([False], objs ex_described 0)"
  "description (objs ex_described 0) = Some ''archive''"
  "debug_log (reporter ex_identified) = debug_log (reporter ex_described)"
  by (simp_all add: ex_identified_def ex_described_def ex_loader_cfg_def run_eval ex_state_def ex_file_def Loader_def)

section \<open>C1: the default parser class\<close>

text \<open>
  C1, as stated, fails: the file object of the example has a description and the \<open>identify\<close>
  of the only parser class answers false, yet the generator yields the default parser
  class.
\<close>

theorem default_despite_description_counterexample:
  "description (objs ex_described 0) = Some ''archive'' \<and>
   identify_chain (parsers ex_loader_cfg) (objs ex_described 0) = Inr ([False], objs ex_described 0) \<and>
   default' ex_loader_cfg = Some UnidentifiedFile \<and>
   identify_file ex_loader_cfg 0 (Gen (parsers ex_loader_cfg) False) ex_described =
     Inr ([UnidentifiedFile], ex_identified)"
  using ex_identified_eval by (simp add: ex_loader_cfg_def)

text \<open>
  C1, amended: for a file object for which the \<open>identify\<close> of no parser class of the
  dispatcher answers true (and none raises), the generator yields the default parser class
  whenever one is configured, whether the file object has a description or not; the default
  is then the only element of the sequence, and with no default the sequence is empty. The
  description decides only whether the debug message "not identified" is written.
\<close>

theorem default_when_nothing_matches:
  assumes "identify_chain (parsers cfg) (objs s a) = Inr (bs, fo)" and "True \<notin> set bs"
  shows "\<exists>s'. identify_file cfg a (Gen (parsers cfg) False) s =
                 Inr (case default' cfg of None \<Rightarrow> [] | Some d \<Rightarrow> [d], s') \<and>
              objs s' a = fo \<and>
              debug_log (reporter s') = debug_log (reporter s) @
                (if truthy (description fo) then [] else [MsgNotIdentified (file_name fo)])"
proof -
  from identify_next_no_match [OF assms, of cfg False] obtain s0 where
    n: "identify_next cfg a (Gen (parsers cfg) False) s = identify_next cfg a (Gen [] False) s0"
    and o: "objs s0 a = fo" and r: "reporter s0 = reporter s" by blast
  define s' where "s' = (if \<not> truthy (description (objs s0 a))
                   then debug (MsgNotIdentified (file_name (objs s0 a))) s0 else s0)"
  have "identify_file cfg a (Gen (parsers cfg) False) s =
      Inr (case default' cfg of None \<Rightarrow> [] | Some d \<Rightarrow> [d], s')"
    by (simp add: identify_file.simps [of cfg a "Gen (parsers cfg) False"]
          identify_file.simps [of cfg a Exhausted] n s'_def Let_def split: option.splits)
  moreover have "objs s' a = fo"
    and "debug_log (reporter s') = debug_log (reporter s) @
           (if truthy (description fo) then [] else [MsgNotIdentified (file_name fo)])"
    using o r by (simp_all add: s'_def debug_def reporter_debug_def)
  ultimately show ?thesis by blast
qed

theorem default_when_nothing_matches_witness:
  "identify_chain (parsers ex_loader_cfg) (objs ex_described 0) = Inr ([False], objs ex_described 0) \<and>
   True \<notin> set [False] \<and> truthy (description (objs ex_described 0)) \<and>
   (\<exists>s'. identify_file ex_loader_cfg 0 (Gen (parsers ex_loader_cfg) False) ex_described =
            Inr ([UnidentifiedFile], s') \<and>
          debug_log (reporter s') = debug_log (reporter ex_described))"
proof -
  have n: "True \<notin> set [False]" by simp
  have d: "default' ex_loader_cfg = Some UnidentifiedFile" by (simp add: ex_loader_cfg_def)
  from default_when_nothing_matches [OF ex_identified_eval(2) n] d show ?thesis
    by (auto simp: ex_identified_eval(2,3) truthy_def)
qed

section \<open>C2: without the greedy flag\<close>

text \<open>
  C2, as stated, fails: in the example the greedy flag is false, and in the round of the file
  object at 0 the \<open>run\<close> of two parser classes is called, first that of \<open>Misfit\<close>, which raises
  \<open>UnableToParse\<close>, and then that of \<open>Loader\<close>.
\<close>

theorem non_greedy_two_runs_counterexample:
  "\<not> greedy (ex_cfg False) \<and> process (ex_cfg False) ex_state = Inr ex_round \<and>
   run_called (trace ex_round) = [(0, ''Misfit''), (0, ''Loader'')]"
proof -
  have "\<not> greedy (ex_cfg False)" by (simp add: ex_cfg_def)
  with ex_round_eval show ?thesis by simp
qed

text \<open>
  C2, amended: when the greedy flag is false, in the round of a file object every parser
  class tried before the last one raised \<open>UnableToParse\<close>; so at most one parser class is tried
  that ends otherwise (by returning or by another exception), and it is the last one. A
  \<open>run\<close> is called only for a parser class that is tried. If no parser class raises
  \<open>UnableToParse\<close>, at most one \<open>run\<close> is called in the round.
\<close>

theorem non_greedy_one_claimant:
  assumes "\<not> greedy cfg" and "fifo_buffer s \<noteq> []" and "process cfg s = Inr s'"
  shows "\<exists>evs. round_step s s' evs \<and>
           (\<forall>x \<in> set (butlast (executed evs)). snd (snd x) = Some UnableToParse) \<and>
           length (filter (\<lambda>x. snd (snd x) \<noteq> Some UnableToParse) (executed evs)) \<le> 1 \<and>
           length (run_called evs) \<le> length (executed evs) \<and>
           ((\<forall>x \<in> set (executed evs). snd (snd x) \<noteq> Some UnableToParse) \<longrightarrow> length (run_called evs) \<le> 1)"
proof -
  from assms(2,3) obtain s1 s2 evs where
    fl: "for_loop cfg (last (fifo_buffer s)) (Gen (parsers cfg) False) s1 = Inr s2"
    and tr: "trace s2 = trace s1 @ evs" and r: "round_step s s' evs"
    by (rule process_for_loop)
  from for_loop_non_greedy [OF assms(1) fl tr]
  have 1: "\<forall>x \<in> set (butlast (executed evs)). snd (snd x) = Some UnableToParse" .
  from butlast_filter_le [OF 1]
  have 2: "length (filter (\<lambda>x. snd (snd x) \<noteq> Some UnableToParse) (executed evs)) \<le> 1" .
  from for_loop_run_called [OF fl tr]
  have 3: "length (run_called evs) \<le> length (executed evs)" by simp
  have 4: "length (run_called evs) \<le> 1" if "\<forall>x \<in> set (executed evs). snd (snd x) \<noteq> Some UnableToParse"
  proof -
    from that have "filter (\<lambda>x. snd (snd x) \<noteq> Some UnableToParse) (executed evs) = executed evs"
      by simp
    with 2 3 show ?thesis by simp
  qed
  from r 1 2 3 4 show ?thesis by blast
qed

theorem non_greedy_one_claimant_witness:
  "\<not> greedy (ex_cfg False) \<and> fifo_buffer ex_state \<noteq> [] \<and>
   process (ex_cfg False) ex_state = Inr ex_round \<and>
   executed (trace ex_round) =
     [(0, ''Misfit'', Some UnableToParse), (0, ''Loader'', None)] \<and>
   (\<exists>evs. round_step ex_state ex_round evs \<and>
      (\<forall>x \<in> set (butlast (executed evs)). snd (snd x) = Some UnableToParse))"
proof -
  have g: "\<not> greedy (ex_cfg False)" by (simp add: ex_cfg_def)
  have q: "fifo_buffer ex_state \<noteq> []" by (simp add: ex_state_eval)
  note p = ex_round_eval(1)
  from non_greedy_one_claimant [OF g q p] g q p show ?thesis
    by (auto simp: ex_round_eval(2))
qed

section \<open>C3: \<open>parser_history\<close>\<close>

text \<open>
  C3, as stated, fails: a seed (no parent, depth 0) with no parser class assigned has the
  history \<open>[None]\<close>, of length 1 and not 0.
\<close>

theorem history_seed_counterexample:
  "ancestors (\<lambda>_. ex_file) 0 [] \<and> parser ((\<lambda>_. ex_file) 0) = None \<and>
   parser_history (\<lambda>_. ex_file) 0 = Some [None]"
  by (simp add: parser_history_def history_loop.simps ex_file_def)

text \<open>
  C3, amended: for a file object with the ancestors \<open>ps\<close>, \<open>parser_history\<close> returns the parser
  classes of the ancestors from the root down, followed by the file object's own (\<open>None\<close>
  where none has been assigned); its length is the depth of the file object plus one. So
  the history of a seed has length 1.
\<close>

theorem history_root_first:
  assumes "ancestors h a ps"
  shows "parser_history h a = Some (map (\<lambda>x. parser (h x)) (rev ps @ [a])) \<and>
         map_option length (parser_history h a) = Some (length ps + 1)"
  using history_loop_ancestors [OF assms, of "[parser (h a)]"]
  by (simp add: parser_history_def rev_map)

theorem history_root_first_witness:
  "ancestors ex_heap 2 [1, 0] \<and>
   parser_history ex_heap 2 = Some [Some ''Dropper'', Some ''Loader'', None] \<and>
   map_option length (parser_history ex_heap 2) = Some 3"
proof -
  have h: "ancestors ex_heap 2 [1, 0]" by (simp add: ex_heap_def ex_file_def)
  from history_root_first [OF h] h show ?thesis by (simp add: ex_heap_def ex_file_def)
qed

section \<open>C4: the parent of an enqueued file object\<close>

text \<open>
  C4, as stated, fails: the current file object is not cleared when the \<open>for\<close> loop of a file
  object ends. After the whole run of the example (the deque is empty, no parser is
  running) it is still the file object at 1, which is neither nil nor the parent of 1, and a
  file object enqueued then gets 1 as its parent.
\<close>

theorem current_not_cleared_counterexample:
  "dispatch 2 (ex_cfg False) ex_state = Some (Inr ex_final) \<and> fifo_buffer ex_final = [] \<and>
   parent (objs ex_final 1) = Some 0 \<and> current_file_object ex_final = Some 1 \<and>
   parent (objs (add_to_queue 2 (snd (new_object ex_file ex_final))) 2) = Some 1"
  using ex_final_eval by (simp add: add_to_queue_fields new_object_def)

text \<open>
  C4, amended: every call of \<open>add_to_queue\<close> sets the parent of the enqueued file object to
  the dispatcher's current file object, which is nil in a new dispatcher, and puts the file
  object at the left end of the deque. A round of \<open>dispatch\<close> does not clear the current file
  object: after the round for a file object it is that file object when a parser class was
  tried on it, and what it was before otherwise. So a file object enqueued into a new
  dispatcher has no parent, and one enqueued after a round in which a parser was tried has
  the file object of that round as its parent.
\<close>

theorem enqueue_parent_is_current:
  "parent (objs (add_to_queue a s) a) = current_file_object s \<and>
   fifo_buffer (add_to_queue a s) = a # fifo_buffer s \<and>
   current_file_object (snd (Dispatcher_init r ps g d)) = None \<and>
   (fifo_buffer s \<noteq> [] \<and> process cfg s = Inr s' \<longrightarrow>
      (\<exists>evs. round_step s s' evs \<and>
         current_file_object s' =
           (if executed evs = [] then current_file_object s else Some (last (fifo_buffer s))) \<and>
         (executed evs \<noteq> [] \<longrightarrow> parent (objs (add_to_queue b s') b) = Some (last (fifo_buffer s)))))"
proof -
  have "\<exists>evs. round_step s s' evs \<and>
         current_file_object s' =
           (if executed evs = [] then current_file_object s else Some (last (fifo_buffer s))) \<and>
         (executed evs \<noteq> [] \<longrightarrow> parent (objs (add_to_queue b s') b) = Some (last (fifo_buffer s)))"
    if "fifo_buffer s \<noteq> []" and "process cfg s = Inr s'"
  proof -
    from process_round [OF that] obtain evs where r: "round_step s s' evs" ..
    then have "current_file_object s' =
        (if executed evs = [] then current_file_object s else Some (last (fifo_buffer s)))"
      by (simp add: round_step_def)
    with r show ?thesis by (auto simp: add_to_queue_fields)
  qed
  then show ?thesis by (simp add: add_to_queue_fields Dispatcher_init_def)
qed

theorem enqueue_parent_is_current_witness:
  "parent (objs ex_state 0) = None \<and>
   fifo_buffer ex_state \<noteq> [] \<and> process (ex_cfg False) ex_state = Inr ex_round \<and>
   current_file_object ex_round = Some 0 \<and>
   parent (objs (add_to_queue 7 ex_round) 7) = Some 0"
proof -
  have h: "fifo_buffer ex_state \<noteq> [] \<and> process (ex_cfg False) ex_state = Inr ex_round"
    by (simp add: ex_round_eval ex_state_eval)
  from enqueue_parent_is_current [of 7 ex_round] h show ?thesis
    by (simp add: ex_round_eval ex_state_eval)
qed

section \<open>C5: failures and the run\<close>

text \<open>
  C5, as stated, fails: an exception of \<open>identify\<close> is a failure raised while a file object is
  processed, and it ends the run. The only parser class of the example has not overwritten
  \<open>identify\<close>, which raises \<open>NotImplementedError\<close>: the run ends with that exception in the
  first round, \<open>output\<close> has not been called on the file object at 0, and the file object at 1
  is left in the queue.
\<close>

theorem identify_failure_aborts_counterexample:
  "dispatch 2 ex_bad_cfg ex_state2 = Some (Inl (NotImplementedError, ex_abort)) \<and>
   dequeued (trace ex_abort) = [0] \<and> output_called (trace ex_abort) = [] \<and>
   fifo_buffer ex_abort = [1]"
  using ex_abort_eval by simp

text \<open>
  C5, amended: when no \<open>identify\<close> raises, no failure of a parser (of its construction or of
  its \<open>run\<close>, \<open>UnableToParse\<close> or any other exception) ends the run. Every round returns: it
  dequeues a file object, ends with the call of \<open>output\<close> on that file object, and leaves the
  file objects that were queued behind it in the queue, after those enqueued in the round.
  The run never ends with an exception; when it returns the queue is empty and \<open>output\<close> has
  been called on every file object that was dequeued. It returns within as many rounds as
  there are file objects in the queue when no \<open>run\<close> enqueues a file. (An exception of
  \<open>identify\<close> is not caught and ends the run.)
\<close>

theorem failures_do_not_abort:
  assumes "total_identify cfg"
  shows "(fifo_buffer s \<noteq> [] \<longrightarrow> (\<exists>s1 evs. process cfg s = Inr s1 \<and> round_step s s1 evs)) \<and>
         (\<forall>e. dispatch n cfg s \<noteq> Some (Inl e)) \<and>
         (dispatch n cfg s = Some (Inr s') \<longrightarrow>
            fifo_buffer s' = [] \<and>
            (\<exists>evs. trace s' = trace s @ evs \<and> set (dequeued evs) \<subseteq> set (output_called evs))) \<and>
         (quiet cfg \<and> length (fifo_buffer s) \<le> n \<longrightarrow> (\<exists>s'. dispatch n cfg s = Some (Inr s')))"
proof -
  have 1: "\<exists>s1 evs. process cfg s = Inr s1 \<and> round_step s s1 evs" if ne: "fifo_buffer s \<noteq> []"
  proof -
    from process_total [OF assms ne] obtain s1 where p: "process cfg s = Inr s1" ..
    from process_round [OF ne p] p show ?thesis by blast
  qed
  have 2: "\<forall>e. dispatch n cfg s \<noteq> Some (Inl e)"
    using dispatch_no_abort [OF assms] by blast
  have 3: "fifo_buffer s' = [] \<and>
            (\<exists>evs. trace s' = trace s @ evs \<and> set (dequeued evs) \<subseteq> set (output_called evs))"
    if "dispatch n cfg s = Some (Inr s')"
    using dispatch_outputs [OF that] .
  have 4: "\<exists>s'. dispatch n cfg s = Some (Inr s')" if "quiet cfg" "length (fifo_buffer s) \<le> n"
    using dispatch_quiet_total [OF that(1) assms that(2)] .
  from 1 2 3 4 show ?thesis by blast
qed

theorem failures_do_not_abort_witness:
  "total_identify ex_crash_cfg \<and> quiet ex_crash_cfg \<and> length (fifo_buffer ex_state2) \<le> 2 \<and>
   dispatch 2 ex_crash_cfg ex_state2 = Some (Inr ex_crash_final) \<and>
   fifo_buffer ex_crash_final = [] \<and>
   executed (trace ex_crash_final) =
     [(0, ''Crasher'', Some (OtherException ''boom'')), (1, ''Crasher'', Some (OtherException ''boom''))] \<and>
   dequeued (trace ex_crash_final) = [0, 1] \<and> output_called (trace ex_crash_final) = [0, 1]"
proof -
  have t: "total_identify ex_crash_cfg" and q: "quiet ex_crash_cfg"
    by (auto simp: total_identify_def quiet_def ex_crash_cfg_def Crasher_def UnidentifiedFile_def)
  from failures_do_not_abort [OF t, of ex_state2 2 ex_crash_final] t q show ?thesis
    by (simp add: ex_crash_final_eval ex_state2_eval)
qed

section \<open>C6: first in, first out\<close>



section \<open>C7: after \<open>UnableToParse\<close>\<close>

text \<open>
  C7: when the generator has yielded the parser class \<open>p\<close> for the file object at \<open>a\<close> and the
  \<open>try\<close> block on \<open>p\<close> raises \<open>UnableToParse\<close>, the \<open>for\<close> loop goes on with the rest of the
  generator on the same file object, whatever the greedy flag, in the state \<open>s3\<close> that the
  \<open>try\<close> block has left but for the debug message. The dispatcher has put nothing into the
  queue: the queue of \<open>s3\<close> is the queue before the \<open>try\<close> block with the file objects that
  \<open>run\<close> has enqueued in front, and the file object at \<open>a\<close> is not among those. Nothing is
  reverted: the queue, the file objects and the knowledge base of \<open>s3\<close> are those at the end
  of the \<open>try\<close> block; the description that \<open>p\<close> gave to a file object without one before the
  \<open>try\<close> block is not taken back.
\<close>

theorem misidentified_tries_next:
  assumes "identify_next cfg a g s = Inr (Some p, g', s1)"
    and "execute p a (prepare a p s1) = (Some UnableToParse, s2)"
  shows "\<exists>s3. for_loop cfg a g s = for_loop cfg a g' s3 \<and>
           trace s3 = trace s2 @ [Executed a (cls_name p) (Some UnableToParse)] \<and>
           fifo_buffer s3 = fifo_buffer s2 \<and> objs s3 = objs s2 \<and>
           knowledge_base s3 = knowledge_base s2 \<and>
           (\<exists>new. fifo_buffer s2 = new @ fifo_buffer s1 \<and> (a < next_addr s1 \<longrightarrow> a \<notin> set new)) \<and>
           description (objs (prepare a p s1) a) =
             (if truthy (description (objs s1 a)) then description (objs s1 a) else DESCRIPTION p)"
proof -
  define s3 where "s3 = debug (MsgMissIdentified (file_name (objs s2 a)) (DESCRIPTION p))
    (log_event (Executed a (cls_name p) (Some UnableToParse)) s2)"
  from assms(2) have b: "body cfg a p s1 = (Continue, s3)"
    by (simp add: body_def s3_def Let_def log_event_def)
  with assms(1) have 1: "for_loop cfg a g s = for_loop cfg a g' s3"
    by (simp add: for_loop.simps [of cfg a g s])
  have 2: "trace s3 = trace s2 @ [Executed a (cls_name p) (Some UnableToParse)]"
    "fifo_buffer s3 = fifo_buffer s2" "objs s3 = objs s2" "knowledge_base s3 = knowledge_base s2"
    by (simp_all add: s3_def debug_def log_event_def)
  from execute_step [OF assms(2)] obtain evs where
    q: "fifo_buffer s2 = rev (enqueued evs) @ fifo_buffer (prepare a p s1)"
    and f: "\<forall>b \<in> set (enqueued evs). next_addr (prepare a p s1) \<le> b \<and> b < next_addr s2"
    by blast
  have pr: "fifo_buffer (prepare a p s1) = fifo_buffer s1" "next_addr (prepare a p s1) = next_addr s1"
    by (simp_all add: prepare_def Let_def)
  from q f pr have 3: "\<exists>new. fifo_buffer s2 = new @ fifo_buffer s1 \<and> (a < next_addr s1 \<longrightarrow> a \<notin> set new)"
    by (intro exI [of _ "rev (enqueued evs)"]) auto
  have 4: "description (objs (prepare a p s1) a) =
             (if truthy (description (objs s1 a)) then description (objs s1 a) else DESCRIPTION p)"
    by (simp add: prepare_def Let_def)
  from 1 2 3 4 show ?thesis by blast
qed

theorem misidentified_tries_next_witness:
  "identify_next (ex_cfg False) 0 (Gen [Misfit, Loader] False) ex_state =
     Inr (Some Misfit, Gen [Loader] True, ex_yield) \<and>
   execute Misfit 0 (prepare 0 Misfit ex_yield) = (Some UnableToParse, ex_failed) \<and>
   description (objs ex_yield 0) = None \<and>
   (\<exists>s3. for_loop (ex_cfg False) 0 (Gen [Misfit, Loader] False) ex_state =
           for_loop (ex_cfg False) 0 (Gen [Loader] True) s3 \<and>
         fifo_buffer s3 = [0] \<and> description (objs s3 0) = Some ''Misfit'')"
proof -
  note h = ex_yield_eval(1) ex_failed_eval(1)
  from misidentified_tries_next [OF h] h show ?thesis
    by (auto simp: ex_yield_eval(2) ex_failed_eval(2,3))
qed

section \<open>C8: \<open>output\<close> twice\<close>

text \<open>
  C8, as stated, fails: \<open>ex_file\<close> has its output flag set, and two calls of \<open>output\<close> make no
  call of the reporter's \<open>output_file\<close> at all, since the reporter already holds the name.
\<close>

theorem output_twice_counterexample:
  "output_file ex_file \<and>
   output_calls (snd (case FileObject_output ex_file ex_sink of (fo1, r1) \<Rightarrow> FileObject_output fo1 r1)) = []"
  by (simp add: FileObject_output_def ex_file_def ex_sink_def)

text \<open>
  C8, amended: \<open>output\<close> is idempotent. A second call right after the first changes neither
  the file object nor the reporter. The first call makes exactly one call of the reporter's
  \<open>output_file\<close> (with the data, the name and the description, \<open>''\<close> for none) when the output
  flag is set, the file has not been output and the reporter does not hold its name yet, and
  no call otherwise; so two calls make at most one. A call on a file that has been output
  changes nothing.
\<close>

theorem output_idempotent:
  assumes "FileObject_output fo r = (fo1, r1)"
  shows "FileObject_output fo1 r1 = (fo1, r1) \<and>
         length (output_calls r1) - length (output_calls r) \<le> 1 \<and>
         output_calls r1 =
           (if output_file fo \<and> \<not> outputted_file fo \<and> file_name fo \<notin> set (outputfiles r)
            then output_calls r @ [(file_data fo, file_name fo, case description fo of None \<Rightarrow> [] | Some d \<Rightarrow> d)]
            else output_calls r) \<and>
         (outputted_file fo \<longrightarrow> fo1 = fo \<and> r1 = r)"
  using assms by (auto simp: FileObject_output_def reporter_output_file_def split: if_splits)

theorem output_idempotent_witness:
  "FileObject_output (ex_file\<lparr>file_name := ''c.bin''\<rparr>) ex_sink =
     (ex_file\<lparr>file_name := ''c.bin'', outputted_file := True\<rparr>,
      ex_sink\<lparr>outputfiles := [''a.bin'', ''c.bin''], output_calls := [(''MZ'', ''c.bin'', [])]\<rparr>) \<and>
   FileObject_output (ex_file\<lparr>file_name := ''c.bin'', outputted_file := True\<rparr>)
      (ex_sink\<lparr>outputfiles := [''a.bin'', ''c.bin''], output_calls := [(''MZ'', ''c.bin'', [])]\<rparr>) =
     (ex_file\<lparr>file_name := ''c.bin'', outputted_file := True\<rparr>,
      ex_sink\<lparr>outputfiles := [''a.bin'', ''c.bin''], output_calls := [(''MZ'', ''c.bin'', [])]\<rparr>)"
proof -
  have h: "FileObject_output (ex_file\<lparr>file_name := ''c.bin''\<rparr>) ex_sink =
     (ex_file\<lparr>file_name := ''c.bin'', outputted_file := True\<rparr>,
      ex_sink\<lparr>outputfiles := [''a.bin'', ''c.bin''], output_calls := [(''MZ'', ''c.bin'', [])]\<rparr>)"
    by (simp add: FileObject_output_def reporter_output_file_def ex_file_def ex_sink_def)
  from output_idempotent [OF h] h show ?thesis
    by (simp add: FileObject_output_def reporter_output_file_def ex_file_def ex_sink_def)
qed

section \<open>C9: with the greedy flag\<close>



section \<open>C10: a name the reporter already holds\<close>

text \<open>
  C10: when the file name is already among the reporter's \<open>outputfiles\<close> at the call,
  \<open>output\<close> changes nothing: it makes no call of the reporter's \<open>output_file\<close> and does not set
  the outputted flag, which stays false where it was false. A later call can still emit
  the file: once the file has a name \<open>n\<close> that the reporter does not hold (and the output
  flag is set and the file has not been output), the next call emits it under \<open>n\<close>.
\<close>

theorem output_skips_taken_name:
  assumes "file_name fo \<in> set (outputfiles r)"
  shows "FileObject_output fo r = (fo, r) \<and>
         output_calls (snd (FileObject_output fo r)) = output_calls r \<and>
         outputted_file (fst (FileObject_output fo r)) = outputted_file fo \<and>
         (\<not> outputted_file fo \<longrightarrow> \<not> outputted_file (fst (FileObject_output fo r))) \<and>
         (output_file fo \<and> \<not> outputted_file fo \<and> n \<notin> set (outputfiles r) \<longrightarrow>
            FileObject_output (fst (FileObject_output fo r)\<lparr>file_name := n\<rparr>) (snd (FileObject_output fo r)) =
              (fo\<lparr>file_name := n, outputted_file := True\<rparr>,
               reporter_output_file (file_data fo) n (case description fo of None \<Rightarrow> [] | Some d \<Rightarrow> d) r))"
  using assms by (simp add: FileObject_output_def)

theorem output_skips_taken_name_witness:
  "file_name ex_file \<in> set (outputfiles ex_sink) \<and>
   FileObject_output ex_file ex_sink = (ex_file, ex_sink) \<and>
   \<not> outputted_file (fst (FileObject_output ex_file ex_sink)) \<and>
   output_calls (snd (FileObject_output (fst (FileObject_output ex_file ex_sink)\<lparr>file_name := ''b.bin''\<rparr>)
      (snd (FileObject_output ex_file ex_sink)))) = [(''MZ'', ''b.bin'', [])]"
proof -
  have h: "file_name ex_file \<in> set (outputfiles ex_sink)"
    by (simp add: ex_file_def ex_sink_def)
  have n: "output_file ex_file \<and> \<not> outputted_file ex_file \<and> ''b.bin'' \<notin> set (outputfiles ex_sink)"
    by (simp add: ex_file_def ex_sink_def)
  from output_skips_taken_name [OF h, of "''b.bin''"] n h show ?thesis
    by (simp add: ex_file_def ex_sink_def reporter_output_file_def FileObject_output_def)
qed

end
